theory Spec2Isabelle
  imports Main "HOL-Library.Word"
begin

unbundle bit_operations_syntax

section \<open>The Manager of USBProxy: data model\<close>

text \<open>
  The development embeds \<^verbatim>\<open>src/lib/Manager.cpp\<close>. A \<^verbatim>\<open>Manager\<close> object is a record that
  every method takes and returns. Undefined behaviour of the C++ (a read through a null
  pointer, a read outside an allocated block, the use of an indeterminate value) and the
  call of \<^verbatim>\<open>std::terminate\<close> are results of their own, so that no method of the model
  silently continues where the program would not.
\<close>

datatype Manager_status =
  USBM_IDLE | USBM_SETUP | USBM_RELAYING | USBM_STOPPING | USBM_SETUP_ABORT | USBM_RESET

datatype fault = Null_dereference | Out_of_bounds | Indeterminate_read | Terminate_called

record usb_endpoint_descriptor =
  bLength :: "8 word"
  bDescriptorType :: "8 word"
  bEndpointAddress :: "8 word"
  bmAttributes :: "8 word"
  wMaxPacketSize :: "16 word"
  bInterval :: "8 word"

text \<open>
  Modelled from the spec: the classes \<^verbatim>\<open>Endpoint\<close>, \<^verbatim>\<open>Interface\<close>, \<^verbatim>\<open>Configuration\<close>,
  \<^verbatim>\<open>DeviceQualifier\<close> and \<^verbatim>\<open>Device\<close> are declared and implemented outside
  \<^verbatim>\<open>Manager.cpp\<close>. They mirror the USB descriptor tree: a Configuration has N Interfaces,
  each with its alternate settings, each with its Endpoints; an Endpoint has a descriptor
  and a back-reference to its owning Interface (null for EP0); a Device has Configurations
  looked up by index, one of them active, and an optional DeviceQualifier. The
  back-reference of an Endpoint is the pair (bInterfaceNumber, bAlternateSetting) of the
  Interface that owns it.
\<close>

type_synonym interface_ref = "8 word \<times> 8 word"

record Endpoint =
  ep_interface :: "interface_ref option"
  ep_descriptor :: usb_endpoint_descriptor

record Interface =
  bInterfaceNumber :: "8 word"
  bAlternateSetting :: "8 word"
  if_endpoints :: "Endpoint list"

record Configuration =
  bConfigurationValue :: "8 word"
  cfg_interfaces :: "Interface list list"

record DeviceQualifier =
  dq_configurations :: "8 word \<Rightarrow> Configuration option"

record Device =
  bMaxPacketSize0 :: "8 word"
  dev_configurations :: "8 word \<Rightarrow> Configuration option"
  dev_qualifier :: "DeviceQualifier option"
  dev_highspeed :: bool
  dev_active :: "8 word"

definition get_configuration :: "Device \<Rightarrow> 8 word \<Rightarrow> Configuration option" where
  "get_configuration d index = dev_configurations d index"

definition get_active_configuration :: "Device \<Rightarrow> Configuration option" where
  "get_active_configuration d = get_configuration d (dev_active d)"

definition set_active_configuration :: "8 word \<Rightarrow> Device \<Rightarrow> Device" where
  "set_active_configuration index d = d\<lparr>dev_active := index\<rparr>"

definition bNumInterfaces :: "Configuration \<Rightarrow> nat" where
  "bNumInterfaces cfg = length (cfg_interfaces cfg)"

text \<open>
  Modelled from the spec: \<^verbatim>\<open>PacketFilter\<close> and \<^verbatim>\<open>Injector\<close> are declared outside
  \<^verbatim>\<open>Manager.cpp\<close>. Each carries four match predicates (device, configuration, interface,
  endpoint), every one a test of a model entity that returns a boolean. The field
  \<open>pf_id\<close> (\<open>inj_id\<close>) tells two objects with the same predicates apart.
\<close>

record PacketFilter =
  pf_id :: nat
  pf_device :: "Device \<Rightarrow> bool"
  pf_configuration :: "Configuration \<Rightarrow> bool"
  pf_interface :: "interface_ref option \<Rightarrow> bool"
  pf_endpoint :: "Endpoint \<Rightarrow> bool"

record Injector =
  inj_id :: nat
  inj_device :: "Device \<Rightarrow> bool"
  inj_configuration :: "Configuration \<Rightarrow> bool"
  inj_interface :: "interface_ref option \<Rightarrow> bool"
  inj_endpoint :: "Endpoint \<Rightarrow> bool"

datatype Proxy = Device_proxy | Host_proxy

text \<open>
  A relay is bound either to one heap-allocated \<^verbatim>\<open>PacketQueue\<close> (named by the number of
  its allocation) or, for EP0, to the pair \<^verbatim>\<open>_readersend\<close>, \<^verbatim>\<open>_writersend\<close> of the Manager.
\<close>

datatype relay_queue = Packet_queue nat | Control_queues

text \<open>
  Modelled from the spec: \<^verbatim>\<open>RelayReader\<close> and \<^verbatim>\<open>RelayWriter\<close> are declared outside
  \<^verbatim>\<open>Manager.cpp\<close>. A reader is what its constructor receives. A writer is what its
  constructor receives (the EP0 writer also a back-reference to the Manager), its filter
  chain in installation order, and its injection intake: the injectors whose outbound
  queue has been wired into it.
\<close>

record RelayReader =
  rd_endpoint :: Endpoint
  rd_proxy :: Proxy
  rd_queue :: relay_queue

record RelayWriter =
  wr_endpoint :: Endpoint
  wr_proxy :: Proxy
  wr_queue :: relay_queue
  wr_manager :: bool
  wr_filters :: "PacketFilter list"
  wr_injection :: "Injector list"

definition new_RelayReader :: "Endpoint \<Rightarrow> Proxy \<Rightarrow> relay_queue \<Rightarrow> RelayReader" where
  "new_RelayReader ep p q = \<lparr>rd_endpoint = ep, rd_proxy = p, rd_queue = q\<rparr>"

definition new_RelayWriter :: "Endpoint \<Rightarrow> Proxy \<Rightarrow> bool \<Rightarrow> relay_queue \<Rightarrow> RelayWriter" where
  "new_RelayWriter ep p back q =
     \<lparr>wr_endpoint = ep, wr_proxy = p, wr_queue = q, wr_manager = back,
      wr_filters = [], wr_injection = []\<rparr>"

definition writer_add_filter :: "PacketFilter \<Rightarrow> RelayWriter \<Rightarrow> RelayWriter" where
  "writer_add_filter f w = w\<lparr>wr_filters := wr_filters w @ [f]\<rparr>"

subsection \<open>What the Manager does to its collaborators\<close>

text \<open>
  Every call the Manager makes on a proxy, on the device model, on a relay or on a thread,
  every object it deletes (a filter or an injector by its identity) and every diagnostic
  it prints under a condition, is recorded in order. The banner that
  each method prints on entry (its name and the status) is not recorded, and neither is the
  console spinner.
\<close>

datatype task =
  In_reader nat | In_writer nat | Out_reader nat | Out_writer nat | Injector_listen nat

datatype proxy_op =
  Connect | Disconnect | Claim_interface nat | Release_interface nat
  | Set_endpoint_interface "8 word" "8 word"
  | SetConfig "Configuration option" "Configuration option" bool

datatype event =
  Log_cant_add_filters | Log_cant_remove_filters | Log_filter_index_out_of_bounds
  | Log_cant_add_injectors | Log_cant_remove_injectors | Log_injector_index_out_of_bounds
  | Log_unable_to_connect | Log_isochronous "8 word"
  | Delete_filter nat | Delete_injector nat | Delete_endpoint Endpoint
  | Proxy_call Proxy proxy_op
  | Device_set_active_configuration "8 word"
  | Device_print
  | Thread_start task | Thread_join task | Please_stop task

subsection \<open>Arrays kept by malloc and realloc\<close>

text \<open>
  \<^verbatim>\<open>filters\<close> and \<^verbatim>\<open>injectors\<close> are pointers to blocks of pointers. The pointer to the
  block is \<open>None\<close> when it is \<^verbatim>\<open>NULL\<close>. A cell of a block is indeterminate until it is
  written; a stored element is itself a pointer, \<open>None\<close> when it is \<^verbatim>\<open>NULL\<close>. Allocation
  is taken to succeed.
\<close>

datatype 'a cell = Indeterminate | Stored 'a

type_synonym 'a block = "'a option cell list option"

definition realloc :: "'a block \<Rightarrow> nat \<Rightarrow> 'a block" where
  "realloc p n =
     (case p of
        None \<Rightarrow> Some (replicate n Indeterminate)
      | Some xs \<Rightarrow> Some (take n xs @ replicate (n - length xs) Indeterminate))"

definition block_read :: "'a block \<Rightarrow> nat \<Rightarrow> fault + 'a option" where
  "block_read p i =
     (case p of
        None \<Rightarrow> Inl Null_dereference
      | Some xs \<Rightarrow>
          if i < length xs
          then (case xs ! i of Indeterminate \<Rightarrow> Inl Indeterminate_read | Stored v \<Rightarrow> Inr v)
          else Inl Out_of_bounds)"

definition block_write :: "'a block \<Rightarrow> int \<Rightarrow> 'a option \<Rightarrow> fault + 'a block" where
  "block_write p i v =
     (case p of
        None \<Rightarrow> Inl Null_dereference
      | Some xs \<Rightarrow>
          if 0 \<le> i \<and> nat i < length xs then Inr (Some (xs[nat i := Stored v]))
          else Inl Out_of_bounds)"

text \<open>One step \<^verbatim>\<open>a[i - 1] = a[i]\<close> of the loop that closes the gap left by a removal.\<close>

definition block_shift :: "nat \<Rightarrow> 'a block \<Rightarrow> fault + 'a block" where
  "block_shift i p =
     (case p of
        None \<Rightarrow> Inl Null_dereference
      | Some xs \<Rightarrow>
          if i < length xs \<and> 0 < i then Inr (Some (xs[i - 1 := xs ! i]))
          else Inl Out_of_bounds)"

subsection \<open>Sequencing of steps that may fault\<close>

definition and_then :: "fault + 'a \<Rightarrow> ('a \<Rightarrow> fault + 'b) \<Rightarrow> fault + 'b" where
  "and_then r f = (case r of Inl e \<Rightarrow> Inl e | Inr x \<Rightarrow> f x)"

fun for_each :: "('a \<Rightarrow> 's \<Rightarrow> fault + 's) \<Rightarrow> 'a list \<Rightarrow> 's \<Rightarrow> fault + 's" where
  "for_each body [] s = Inr s"
| "for_each body (x # xs) s = and_then (body x s) (for_each body xs)"

subsection \<open>The Manager\<close>

text \<open>
  The header \<^verbatim>\<open>Manager.h\<close> is not among the sources. The fields are those that
  \<^verbatim>\<open>Manager.cpp\<close> uses. The two counters are returned as \<^verbatim>\<open>__u8\<close> by
  \<^verbatim>\<open>get_filter_count\<close> and \<^verbatim>\<open>get_injector_count\<close> and are 8-bit words. The sixteen-slot
  tables are maps from the slot number; a thread slot is \<open>True\<close> while its thread is
  joinable. A queue slot is a cell: indeterminate until a queue is stored in it.
  \<open>deviceProxy\<close> and \<open>hostProxy\<close> say whether the pointer is non-null.
  \<^verbatim>\<open>PacketQueue\<close> objects are allocated with \<^verbatim>\<open>new\<close> and nothing in the file deletes one:
  \<open>queues_allocated\<close> counts them, and the queue allocated as number \<open>k\<close> is
  \<open>Packet_queue k\<close>.
\<close>

record Manager =
  status :: Manager_status
  deviceProxy :: bool
  hostProxy :: bool
  device :: "Device option"
  filters :: "PacketFilter block"
  filterCount :: "8 word"
  injectors :: "Injector block"
  injectorCount :: "8 word"
  injectorThreads :: "task list"
  in_endpoints :: "nat \<Rightarrow> Endpoint option"
  in_readers :: "nat \<Rightarrow> RelayReader option"
  in_writers :: "nat \<Rightarrow> RelayWriter option"
  in_queues :: "nat \<Rightarrow> nat cell"
  in_readerThreads :: "nat \<Rightarrow> bool"
  in_writerThreads :: "nat \<Rightarrow> bool"
  out_endpoints :: "nat \<Rightarrow> Endpoint option"
  out_readers :: "nat \<Rightarrow> RelayReader option"
  out_writers :: "nat \<Rightarrow> RelayWriter option"
  out_queues :: "nat \<Rightarrow> nat cell"
  out_readerThreads :: "nat \<Rightarrow> bool"
  out_writerThreads :: "nat \<Rightarrow> bool"
  queues_allocated :: nat
  trace :: "event list"

definition emit :: "event \<Rightarrow> Manager \<Rightarrow> Manager" where
  "emit e m = m\<lparr>trace := trace m @ [e]\<rparr>"

definition proxy_present :: "Proxy \<Rightarrow> Manager \<Rightarrow> bool" where
  "proxy_present p m = (case p of Device_proxy \<Rightarrow> deviceProxy m | Host_proxy \<Rightarrow> hostProxy m)"

definition proxy_call :: "Proxy \<Rightarrow> proxy_op \<Rightarrow> Manager \<Rightarrow> fault + Manager" where
  "proxy_call p c m =
     (if proxy_present p m then Inr (emit (Proxy_call p c) m) else Inl Null_dereference)"

text \<open>
  The constructor (lines 53-81). It writes every table but \<^verbatim>\<open>in_queues\<close> and
  \<^verbatim>\<open>out_queues\<close>: a queue slot is indeterminate until \<^verbatim>\<open>start_data_relaying\<close> stores
  a queue in it, and nothing ever stores a null pointer there. The thread slots are
  default-constructed, hence not joinable.
\<close>

definition Manager_new :: Manager where
  "Manager_new =
     \<lparr>status = USBM_IDLE, deviceProxy = False, hostProxy = False, device = None,
      filters = None, filterCount = 0, injectors = None, injectorCount = 0,
      injectorThreads = [],
      in_endpoints = (\<lambda>_. None), in_readers = (\<lambda>_. None), in_writers = (\<lambda>_. None),
      in_queues = (\<lambda>_. Indeterminate), in_readerThreads = (\<lambda>_. False),
      in_writerThreads = (\<lambda>_. False),
      out_endpoints = (\<lambda>_. None), out_readers = (\<lambda>_. None), out_writers = (\<lambda>_. None),
      out_queues = (\<lambda>_. Indeterminate), out_readerThreads = (\<lambda>_. False),
      out_writerThreads = (\<lambda>_. False),
      queues_allocated = 0, trace = []\<rparr>"

section \<open>The filter and injector registries\<close>

text \<open>
  \<^verbatim>\<open>add_injector\<close> (lines 180-200), \<^verbatim>\<open>remove_injector\<close> (202-237),
  \<^verbatim>\<open>get_injector\<close> (239-249), \<^verbatim>\<open>add_filter\<close> (258-278), \<^verbatim>\<open>remove_filter\<close>
  (280-314) and \<^verbatim>\<open>get_filter\<close> (316-327). In the additions and removals the tests of
  the status and of the index print a message and are followed by no \<^verbatim>\<open>return\<close>: the
  statements after them run in every case. \<^verbatim>\<open>filters[filterCount - 1]\<close> is indexed with
  an \<^verbatim>\<open>int\<close>, so a count of 0 gives the index -1.
\<close>

definition add_filter :: "PacketFilter option \<Rightarrow> Manager \<Rightarrow> fault + Manager" where
  "add_filter f m =
     (let m1 = (if status m \<noteq> USBM_IDLE \<and> status m \<noteq> USBM_RESET
                then emit Log_cant_add_filters m else m);
          m2 = (case filters m1 of
                  Some xs \<Rightarrow>
                    m1\<lparr>filterCount := filterCount m1 + 1,
                       filters := realloc (filters m1) (unat (filterCount m1 + 1))\<rparr>
                | None \<Rightarrow> m1\<lparr>filterCount := 1, filters := realloc None 1\<rparr>)
      in and_then (block_write (filters m2) (int (unat (filterCount m2)) - 1) f)
           (\<lambda>b. Inr (m2\<lparr>filters := b\<rparr>)))"

definition remove_filter :: "8 word \<Rightarrow> bool \<Rightarrow> Manager \<Rightarrow> fault + Manager" where
  "remove_filter index freeMemory m =
     (let m1 = (if status m \<noteq> USBM_IDLE \<and> status m \<noteq> USBM_RESET
                then emit Log_cant_remove_filters m else m);
          m2 = (if filters m1 = None \<or> filterCount m1 \<le> index
                then emit Log_filter_index_out_of_bounds m1 else m1)
      in and_then (if freeMemory
               then and_then (block_read (filters m2) (unat index))
                      (\<lambda>p. Inr (case p of None \<Rightarrow> m2 | Some f \<Rightarrow> emit (Delete_filter (pf_id f)) m2))
               else Inr m2)
           (\<lambda>m3. if filterCount m3 = 1
                  then Inr (m3\<lparr>filterCount := 0, filters := None\<rparr>)
                  else and_then (for_each block_shift
                               [unat index + 1 ..< unat (filterCount m3)] (filters m3))
                         (\<lambda>b. Inr (m3\<lparr>filterCount := filterCount m3 - 1,
                                      filters := realloc b (unat (filterCount m3 - 1))\<rparr>))))"

definition get_filter :: "8 word \<Rightarrow> Manager \<Rightarrow> fault + (PacketFilter option \<times> Manager)" where
  "get_filter index m =
     (if filters m = None \<or> filterCount m \<le> index then Inr (None, m)
      else and_then (block_read (filters m) (unat index)) (\<lambda>p. Inr (p, m)))"

definition get_filter_count :: "Manager \<Rightarrow> 8 word \<times> Manager" where
  "get_filter_count m = (filterCount m, m)"

definition add_injector :: "Injector option \<Rightarrow> Manager \<Rightarrow> fault + Manager" where
  "add_injector i m =
     (let m1 = (if status m \<noteq> USBM_IDLE then emit Log_cant_add_injectors m else m);
          m2 = (case injectors m1 of
                  Some xs \<Rightarrow>
                    m1\<lparr>injectorCount := injectorCount m1 + 1,
                       injectors := realloc (injectors m1) (unat (injectorCount m1 + 1))\<rparr>
                | None \<Rightarrow> m1\<lparr>injectorCount := 1, injectors := realloc None 1\<rparr>)
      in and_then (block_write (injectors m2) (int (unat (injectorCount m2)) - 1) i)
           (\<lambda>b. Inr (m2\<lparr>injectors := b\<rparr>)))"

definition remove_injector :: "8 word \<Rightarrow> bool \<Rightarrow> Manager \<Rightarrow> fault + Manager" where
  "remove_injector index freeMemory m =
     (let m1 = (if status m \<noteq> USBM_IDLE \<and> status m \<noteq> USBM_RESET
                then emit Log_cant_remove_injectors m else m);
          m2 = (if injectors m1 = None \<or> injectorCount m1 \<le> index
                then emit Log_injector_index_out_of_bounds m1 else m1)
      in and_then (if freeMemory
               then and_then (block_read (injectors m2) (unat index))
                      (\<lambda>p. Inr (case p of None \<Rightarrow> m2 | Some i \<Rightarrow> emit (Delete_injector (inj_id i)) m2))
               else Inr m2)
           (\<lambda>m3. if injectorCount m3 = 1
                  then Inr (m3\<lparr>injectorCount := 0, injectors := None\<rparr>)
                  else and_then (for_each block_shift
                               [unat index + 1 ..< unat (injectorCount m3)] (injectors m3))
                         (\<lambda>b. Inr (m3\<lparr>injectorCount := injectorCount m3 - 1,
                                      injectors := realloc b (unat (injectorCount m3 - 1))\<rparr>))))"

definition get_injector :: "8 word \<Rightarrow> Manager \<Rightarrow> fault + (Injector option \<times> Manager)" where
  "get_injector index m =
     (if injectors m = None \<or> injectorCount m \<le> index then Inr (None, m)
      else and_then (block_read (injectors m) (unat index)) (\<lambda>p. Inr (p, m)))"

definition get_injector_count :: "Manager \<Rightarrow> 8 word \<times> Manager" where
  "get_injector_count m = (injectorCount m, m)"

section \<open>Teardown: stop_relaying\<close>

text \<open>
  \<^verbatim>\<open>stop_relaying\<close> (lines 744-900): signal the injectors and the relayer threads, join
  the injector threads, then for each of the sixteen slots clear the endpoint slots, join
  the threads and delete the readers and writers; delete the EP0 endpoint, release the
  interfaces, disconnect both proxies, forget the device model and publish IDLE. No
  statement of the method reads or writes \<^verbatim>\<open>in_queues\<close> or \<^verbatim>\<open>out_queues\<close>.
\<close>

definition signal_injector :: "nat \<Rightarrow> Manager \<Rightarrow> fault + Manager" where
  "signal_injector i m =
     and_then (block_read (injectors m) i)
       (\<lambda>p. Inr (case p of None \<Rightarrow> m | Some _ \<Rightarrow> emit (Please_stop (Injector_listen i)) m))"

text \<open>
  \<^verbatim>\<open>if (thread.joinable()) relay->please_stop();\<close> where the relay pointer is not tested.
\<close>

definition signal_thread :: "bool \<Rightarrow> 'a option \<Rightarrow> task \<Rightarrow> Manager \<Rightarrow> fault + Manager" where
  "signal_thread joinable relay t m =
     (if joinable
      then (case relay of None \<Rightarrow> Inl Null_dereference | Some _ \<Rightarrow> Inr (emit (Please_stop t) m))
      else Inr m)"

definition signal_relayers :: "nat \<Rightarrow> Manager \<Rightarrow> fault + Manager" where
  "signal_relayers i m =
     and_then (signal_thread (in_readerThreads m i) (in_readers m i) (In_reader i) m) (\<lambda>m1.
     and_then (signal_thread (in_writerThreads m1 i) (in_writers m1 i) (In_writer i) m1) (\<lambda>m2.
     and_then (signal_thread (out_readerThreads m2 i) (out_readers m2 i) (Out_reader i) m2) (\<lambda>m3.
     signal_thread (out_writerThreads m3 i) (out_writers m3 i) (Out_writer i) m3)))"

definition join_injectors :: "Manager \<Rightarrow> Manager" where
  "join_injectors m = (fold (\<lambda>t. emit (Thread_join t)) (injectorThreads m) m)\<lparr>injectorThreads := []\<rparr>"

definition release_in_reader :: "nat \<Rightarrow> Manager \<Rightarrow> Manager" where
  "release_in_reader i m =
     (case in_readers m i of
        None \<Rightarrow> m
      | Some _ \<Rightarrow>
          (let m1 = (if in_readerThreads m i
                     then emit (Thread_join (In_reader i))
                            (m\<lparr>in_readerThreads := (in_readerThreads m)(i := False)\<rparr>)
                     else m)
           in m1\<lparr>in_readers := (in_readers m1)(i := None)\<rparr>))"

definition release_in_writer :: "nat \<Rightarrow> Manager \<Rightarrow> Manager" where
  "release_in_writer i m =
     (case in_writers m i of
        None \<Rightarrow> m
      | Some _ \<Rightarrow>
          (let m1 = (if in_writerThreads m i
                     then emit (Thread_join (In_writer i))
                            (m\<lparr>in_writerThreads := (in_writerThreads m)(i := False)\<rparr>)
                     else m)
           in m1\<lparr>in_writers := (in_writers m1)(i := None)\<rparr>))"

definition release_out_reader :: "nat \<Rightarrow> Manager \<Rightarrow> Manager" where
  "release_out_reader i m =
     (case out_readers m i of
        None \<Rightarrow> m
      | Some _ \<Rightarrow>
          (let m1 = (if out_readerThreads m i
                     then emit (Thread_join (Out_reader i))
                            (m\<lparr>out_readerThreads := (out_readerThreads m)(i := False)\<rparr>)
                     else m)
           in m1\<lparr>out_readers := (out_readers m1)(i := None)\<rparr>))"

definition release_out_writer :: "nat \<Rightarrow> Manager \<Rightarrow> Manager" where
  "release_out_writer i m =
     (case out_writers m i of
        None \<Rightarrow> m
      | Some _ \<Rightarrow>
          (let m1 = (if out_writerThreads m i
                     then emit (Thread_join (Out_writer i))
                            (m\<lparr>out_writerThreads := (out_writerThreads m)(i := False)\<rparr>)
                     else m)
           in m1\<lparr>out_writers := (out_writers m1)(i := None)\<rparr>))"

text \<open>The body of the loop that waits for the relayer threads and deletes the relayers.\<close>

definition release_slot :: "nat \<Rightarrow> Manager \<Rightarrow> Manager" where
  "release_slot i m =
     (let m1 = m\<lparr>in_endpoints := (in_endpoints m)(i := None)\<rparr>;
          m2 = release_in_writer i (release_in_reader i m1);
          m3 = m2\<lparr>out_endpoints := (out_endpoints m2)(i := None)\<rparr>
      in release_out_writer i (release_out_reader i m3))"

definition delete_ep0 :: "Manager \<Rightarrow> Manager" where
  "delete_ep0 m =
     (case out_endpoints m 0 of
        None \<Rightarrow> m
      | Some ep \<Rightarrow> emit (Delete_endpoint ep) (m\<lparr>out_endpoints := (out_endpoints m)(0 := None)\<rparr>))"

definition release_interfaces :: "Manager \<Rightarrow> fault + Manager" where
  "release_interfaces m =
     (case device m of
        None \<Rightarrow> Inr m
      | Some d \<Rightarrow>
          (case get_active_configuration d of
             None \<Rightarrow> Inl Null_dereference
           | Some cfg \<Rightarrow>
               for_each (\<lambda>ifc_idx. proxy_call Device_proxy (Release_interface ifc_idx))
                 [0..<bNumInterfaces cfg] m))"

definition stop_relaying :: "Manager \<Rightarrow> fault + Manager" where
  "stop_relaying m =
     (if status m = USBM_SETUP then Inr (m\<lparr>status := USBM_SETUP_ABORT\<rparr>)
      else if status m \<noteq> USBM_RELAYING \<and> status m \<noteq> USBM_SETUP_ABORT then Inr m
      else
        and_then (for_each signal_injector [0..<unat (injectorCount m)]
                    (m\<lparr>status := USBM_STOPPING\<rparr>)) (\<lambda>m1.
        and_then (for_each signal_relayers [0..<16] m1) (\<lambda>m2.
        and_then (release_interfaces
                    (delete_ep0 (fold release_slot [0..<16] (join_injectors m2)))) (\<lambda>m3.
        and_then (proxy_call Host_proxy Disconnect m3) (\<lambda>m4.
        and_then (proxy_call Device_proxy Disconnect m4) (\<lambda>m5.
        Inr (m5\<lparr>device := None, status := USBM_IDLE\<rparr>)))))))"

section \<open>Data endpoints: start_data_relaying and setConfig\<close>

text \<open>
  \<^verbatim>\<open>start_data_relaying\<close> (lines 566-742) and \<^verbatim>\<open>setConfig\<close> (902-928). The counts that
  bound the loops over interfaces, alternate settings and endpoints are the lengths of the
  lists of the device model.
\<close>

text \<open>
  \<^verbatim>\<open>USB_ENDPOINT_XFERTYPE_MASK\<close> is 0x03 and \<^verbatim>\<open>USB_ENDPOINT_XFER_ISOC\<close> is 1 (the
  constants of the USB headers, as the specification spells them out).
\<close>

definition is_isochronous :: "usb_endpoint_descriptor \<Rightarrow> bool" where
  "is_isochronous epd = (bmAttributes epd AND 0x03 = 0x01)"

definition is_in :: "usb_endpoint_descriptor \<Rightarrow> bool" where
  "is_in epd = (bEndpointAddress epd AND 0x80 \<noteq> 0)"

definition slot_of :: "usb_endpoint_descriptor \<Rightarrow> nat" where
  "slot_of epd = unat (bEndpointAddress epd AND 0x0f)"

definition install_endpoint :: "Interface \<Rightarrow> Endpoint \<Rightarrow> Manager \<Rightarrow> fault + Manager" where
  "install_endpoint aifc ep m =
     (let epd = ep_descriptor ep in
      if is_isochronous epd then Inr (emit (Log_isochronous (bEndpointAddress epd)) m)
      else
        proxy_call Device_proxy
          (Set_endpoint_interface (bEndpointAddress epd) (bInterfaceNumber aifc))
          (if is_in epd
           then m\<lparr>in_endpoints := (in_endpoints m)(slot_of epd \<mapsto> ep),
                  in_queues := (in_queues m)(slot_of epd := Stored (queues_allocated m)),
                  queues_allocated := Suc (queues_allocated m)\<rparr>
           else m\<lparr>out_endpoints := (out_endpoints m)(slot_of epd \<mapsto> ep),
                  out_queues := (out_queues m)(slot_of epd := Stored (queues_allocated m)),
                  queues_allocated := Suc (queues_allocated m)\<rparr>))"

definition enumerate_endpoints :: "Configuration \<Rightarrow> Manager \<Rightarrow> fault + Manager" where
  "enumerate_endpoints cfg m =
     for_each
       (\<lambda>alternates. for_each (\<lambda>aifc. for_each (install_endpoint aifc) (if_endpoints aifc))
          alternates)
       (cfg_interfaces cfg) m"

definition construct_relays :: "nat \<Rightarrow> Manager \<Rightarrow> fault + Manager" where
  "construct_relays i m =
     and_then
       (case in_endpoints m i of
          None \<Rightarrow> Inr m
        | Some ep \<Rightarrow>
            (case in_queues m i of
               Indeterminate \<Rightarrow> Inl Indeterminate_read
             | Stored q \<Rightarrow>
                 Inr (m\<lparr>in_readers := (in_readers m)
                           (i \<mapsto> new_RelayReader ep Device_proxy (Packet_queue q)),
                        in_writers := (in_writers m)
                           (i \<mapsto> new_RelayWriter ep Host_proxy False (Packet_queue q))\<rparr>)))
       (\<lambda>m1. case out_endpoints m1 i of
          None \<Rightarrow> Inr m1
        | Some ep \<Rightarrow>
            (case out_queues m1 i of
               Indeterminate \<Rightarrow> Inl Indeterminate_read
             | Stored q \<Rightarrow>
                 Inr (m1\<lparr>out_readers := (out_readers m1)
                            (i \<mapsto> new_RelayReader ep Host_proxy (Packet_queue q)),
                         out_writers := (out_writers m1)
                            (i \<mapsto> new_RelayWriter ep Device_proxy False (Packet_queue q))\<rparr>)))"

definition apply_filter_slot :: "PacketFilter \<Rightarrow> nat \<Rightarrow> Manager \<Rightarrow> fault + Manager" where
  "apply_filter_slot f j m =
     and_then
       (case in_endpoints m j of
          None \<Rightarrow> Inr m
        | Some ep \<Rightarrow>
            if pf_endpoint f ep \<and> pf_interface f (ep_interface ep)
            then (case in_writers m j of
                    None \<Rightarrow> Inl Null_dereference
                  | Some w \<Rightarrow> Inr (m\<lparr>in_writers := (in_writers m)(j \<mapsto> writer_add_filter f w)\<rparr>))
            else Inr m)
       (\<lambda>m1. case out_endpoints m1 j of
          None \<Rightarrow> Inr m1
        | Some ep \<Rightarrow>
            if pf_endpoint f ep \<and> pf_interface f (ep_interface ep)
            then (case out_writers m1 j of
                    None \<Rightarrow> Inl Null_dereference
                  | Some w \<Rightarrow>
                      Inr (m1\<lparr>out_writers := (out_writers m1)(j \<mapsto> writer_add_filter f w)\<rparr>))
            else Inr m1)"

definition apply_filter :: "Device \<Rightarrow> Configuration \<Rightarrow> nat \<Rightarrow> Manager \<Rightarrow> fault + Manager" where
  "apply_filter d cfg i m =
     and_then (block_read (filters m) i)
       (\<lambda>p. case p of
          None \<Rightarrow> Inl Null_dereference
        | Some f \<Rightarrow>
            if pf_device f d \<and> pf_configuration f cfg
            then for_each (apply_filter_slot f) [1..<16] m
            else Inr m)"

text \<open>
  The walk over the injectors evaluates the same predicates; the statements that would
  wire a queue are commented out in the source, so both branches leave the Manager as it
  is.
\<close>

definition apply_injector_slot :: "Injector \<Rightarrow> nat \<Rightarrow> Manager \<Rightarrow> fault + Manager" where
  "apply_injector_slot injector j m =
     (let m1 = (case in_endpoints m j of
                  None \<Rightarrow> m
                | Some ep \<Rightarrow>
                    if inj_endpoint injector ep \<and> inj_interface injector (ep_interface ep) then m else m)
      in Inr (case out_endpoints m1 j of
                None \<Rightarrow> m1
              | Some ep \<Rightarrow>
                  if inj_endpoint injector ep \<and> inj_interface injector (ep_interface ep) then m1 else m1))"

definition apply_injector :: "Device \<Rightarrow> Configuration \<Rightarrow> nat \<Rightarrow> Manager \<Rightarrow> fault + Manager" where
  "apply_injector d cfg i m =
     and_then (block_read (injectors m) i)
       (\<lambda>p. case p of
          None \<Rightarrow> Inl Null_dereference
        | Some injector \<Rightarrow>
            if inj_device injector d \<and> inj_configuration injector cfg
            then for_each (apply_injector_slot injector) [1..<16] m
            else Inr m)"

text \<open>
  \<^verbatim>\<open>threads[i] = std::thread(...)\<close>: the move assignment calls \<^verbatim>\<open>std::terminate\<close>
  when the slot still holds a joinable thread.
\<close>

definition start_in_reader :: "nat \<Rightarrow> Manager \<Rightarrow> fault + Manager" where
  "start_in_reader i m =
     (case in_readers m i of
        None \<Rightarrow> Inr m
      | Some _ \<Rightarrow>
          if in_readerThreads m i then Inl Terminate_called
          else Inr (emit (Thread_start (In_reader i))
                      (m\<lparr>in_readerThreads := (in_readerThreads m)(i := True)\<rparr>)))"

definition start_in_writer :: "nat \<Rightarrow> Manager \<Rightarrow> fault + Manager" where
  "start_in_writer i m =
     (case in_writers m i of
        None \<Rightarrow> Inr m
      | Some _ \<Rightarrow>
          if in_writerThreads m i then Inl Terminate_called
          else Inr (emit (Thread_start (In_writer i))
                      (m\<lparr>in_writerThreads := (in_writerThreads m)(i := True)\<rparr>)))"

definition start_out_reader :: "nat \<Rightarrow> Manager \<Rightarrow> fault + Manager" where
  "start_out_reader i m =
     (case out_readers m i of
        None \<Rightarrow> Inr m
      | Some _ \<Rightarrow>
          if out_readerThreads m i then Inl Terminate_called
          else Inr (emit (Thread_start (Out_reader i))
                      (m\<lparr>out_readerThreads := (out_readerThreads m)(i := True)\<rparr>)))"

definition start_out_writer :: "nat \<Rightarrow> Manager \<Rightarrow> fault + Manager" where
  "start_out_writer i m =
     (case out_writers m i of
        None \<Rightarrow> Inr m
      | Some _ \<Rightarrow>
          if out_writerThreads m i then Inl Terminate_called
          else Inr (emit (Thread_start (Out_writer i))
                      (m\<lparr>out_writerThreads := (out_writerThreads m)(i := True)\<rparr>)))"

definition start_threads :: "nat \<Rightarrow> Manager \<Rightarrow> fault + Manager" where
  "start_threads i m =
     and_then (start_in_reader i m) (\<lambda>m1.
     and_then (start_in_writer i m1) (\<lambda>m2.
     and_then (start_out_reader i m2) (start_out_writer i)))"

definition claim_interfaces :: "Configuration \<Rightarrow> Manager \<Rightarrow> fault + Manager" where
  "claim_interfaces cfg m =
     for_each (\<lambda>ifc_idx. proxy_call Device_proxy (Claim_interface ifc_idx))
       [0..<bNumInterfaces cfg] m"

definition start_data_relaying :: "Manager \<Rightarrow> fault + Manager" where
  "start_data_relaying m =
     (case device m of
        None \<Rightarrow> Inl Null_dereference
      | Some d \<Rightarrow>
          (case get_active_configuration d of
             None \<Rightarrow> Inl Null_dereference
           | Some cfg \<Rightarrow>
               and_then (enumerate_endpoints cfg m) (\<lambda>m1.
               and_then (for_each construct_relays [1..<16] m1) (\<lambda>m2.
               and_then (for_each (apply_filter d cfg) [0..<unat (filterCount m2)] m2) (\<lambda>m3.
               and_then (for_each (apply_injector d cfg) [0..<unat (injectorCount m3)] m3)
                 (\<lambda>m4.
               and_then (claim_interfaces cfg m4) (\<lambda>m5.
               for_each start_threads [1..<16] m5)))))))"

definition proxies_setConfig ::
  "Configuration option \<Rightarrow> Configuration option \<Rightarrow> bool \<Rightarrow> Manager \<Rightarrow> fault + Manager" where
  "proxies_setConfig fs_cfg hs_cfg hs m =
     and_then (proxy_call Device_proxy (SetConfig fs_cfg hs_cfg hs) m)
       (proxy_call Host_proxy (SetConfig fs_cfg hs_cfg hs))"

definition setConfig :: "8 word \<Rightarrow> Manager \<Rightarrow> fault + Manager" where
  "setConfig index m =
     (case device m of
        None \<Rightarrow> Inl Null_dereference
      | Some d0 \<Rightarrow>
          (let d = set_active_configuration index d0;
               m1 = emit (Device_set_active_configuration index) (m\<lparr>device := Some d\<rparr>)
           in and_then
                (case dev_qualifier d of
                   Some qualifier \<Rightarrow>
                     if dev_highspeed d
                     then proxies_setConfig (dq_configurations qualifier index)
                            (get_configuration d index) True m1
                     else proxies_setConfig (get_configuration d index)
                            (dq_configurations qualifier index) False m1
                 | None \<Rightarrow>
                     proxies_setConfig (get_configuration d index) None (dev_highspeed d) m1)
                start_data_relaying))"

section \<open>Control setup: start_control_relaying\<close>

text \<open>\<^verbatim>\<open>start_control_relaying\<close> (lines 371-564).\<close>

text \<open>
  What the method cannot decide by itself comes from an environment: the return code of
  the n-th call of \<^verbatim>\<open>DeviceProxy::connect\<close> and of \<^verbatim>\<open>HostProxy::connect\<close>, the device
  model that \<^verbatim>\<open>new Device(deviceProxy)\<close> builds, and, for every place where the method
  reads \<^verbatim>\<open>status\<close>, whether another thread has called \<^verbatim>\<open>stop_relaying\<close> since the
  previous read. While the status is SETUP such a call does one thing: it stores
  SETUP_ABORT and returns. A concurrent call that arrives after the status has left SETUP
  is not modelled.
\<close>

datatype checkpoint =
  During_device_connect nat | After_claim | After_ep0 | Filter_walk nat | Injector_walk nat
  | Injector_thread nat | During_host_connect nat | After_reader_thread | After_writer_thread

record environment =
  device_connect :: "nat \<Rightarrow> int"
  host_connect :: "nat \<Rightarrow> int"
  connected_device :: Device
  stop_requested :: "checkpoint \<Rightarrow> bool"

definition ETIMEDOUT :: int where
  "ETIMEDOUT = 110"

definition observe :: "environment \<Rightarrow> checkpoint \<Rightarrow> Manager \<Rightarrow> Manager" where
  "observe env cp m =
     (if stop_requested env cp \<and> status m = USBM_SETUP
      then m\<lparr>status := USBM_SETUP_ABORT\<rparr> else m)"

text \<open>
  \<^verbatim>\<open>while (rc == ETIMEDOUT && status == USBM_SETUP) rc = proxy->connect();\<close> after call
  number \<open>n\<close> has returned \<open>rc\<close>. The loop need not end: the result is \<open>None\<close> when it
  does not.
\<close>

partial_function (option) connect_loop ::
  "Proxy \<Rightarrow> (nat \<Rightarrow> int) \<Rightarrow> (nat \<Rightarrow> Manager \<Rightarrow> Manager) \<Rightarrow> nat \<Rightarrow> int \<Rightarrow> Manager
     \<Rightarrow> (fault + int \<times> Manager) option" where
  "connect_loop p rcs obs n rc m =
     (if rc = ETIMEDOUT \<and> status m = USBM_SETUP
      then (case proxy_call p Connect m of
              Inl e \<Rightarrow> Some (Inl e)
            | Inr m1 \<Rightarrow> connect_loop p rcs obs (Suc n) (rcs (Suc n)) (obs (Suc n) m1))
      else Some (Inr (rc, m)))"

definition connect_retrying ::
  "Proxy \<Rightarrow> (nat \<Rightarrow> int) \<Rightarrow> (nat \<Rightarrow> Manager \<Rightarrow> Manager) \<Rightarrow> Manager
     \<Rightarrow> (fault + int \<times> Manager) option" where
  "connect_retrying p rcs obs m =
     (case proxy_call p Connect m of
        Inl e \<Rightarrow> Some (Inl e)
      | Inr m1 \<Rightarrow> connect_loop p rcs obs 0 (rcs 0) (obs 0 m1))"

definition connect_device :: "environment \<Rightarrow> Manager \<Rightarrow> (fault + int \<times> Manager) option" where
  "connect_device env m =
     connect_retrying Device_proxy (device_connect env)
       (\<lambda>n. observe env (During_device_connect n)) m"

definition connect_host :: "environment \<Rightarrow> Manager \<Rightarrow> (fault + int \<times> Manager) option" where
  "connect_host env m =
     connect_retrying Host_proxy (host_connect env)
       (\<lambda>n. observe env (During_host_connect n)) m"

text \<open>
  The three loops over the filters, the injectors and the injector threads begin every
  iteration with \<^verbatim>\<open>if (status != USBM_SETUP) { stop_relaying(); return; }\<close>. The boolean
  of the result says whether the method has returned.
\<close>

fun walk ::
  "(nat \<Rightarrow> Manager \<Rightarrow> fault + Manager) \<Rightarrow> (nat \<Rightarrow> checkpoint) \<Rightarrow> environment \<Rightarrow> nat list
     \<Rightarrow> Manager \<Rightarrow> fault + bool \<times> Manager" where
  "walk body cp env [] m = Inr (False, m)"
| "walk body cp env (i # rest) m =
     (let m1 = observe env (cp i) m in
      if status m1 \<noteq> USBM_SETUP then and_then (stop_relaying m1) (\<lambda>m2. Inr (True, m2))
      else and_then (body i m1) (walk body cp env rest))"

text \<open>\<^verbatim>\<open>USB_DT_ENDPOINT\<close> is 5.\<close>

definition ep0_descriptor :: "Device \<Rightarrow> usb_endpoint_descriptor" where
  "ep0_descriptor d =
     \<lparr>bLength = 7, bDescriptorType = 5, bEndpointAddress = 0, bmAttributes = 0,
      wMaxPacketSize = ucast (bMaxPacketSize0 d), bInterval = 0\<rparr>"

definition apply_filter_ep0 :: "Device \<Rightarrow> nat \<Rightarrow> Manager \<Rightarrow> fault + Manager" where
  "apply_filter_ep0 d i m =
     and_then (block_read (filters m) i)
       (\<lambda>p. case p of
          None \<Rightarrow> Inl Null_dereference
        | Some f \<Rightarrow>
            if pf_device f d
            then (case out_endpoints m 0 of
                    None \<Rightarrow> Inr m
                  | Some ep \<Rightarrow>
                      if pf_endpoint f ep
                      then (case out_writers m 0 of
                              None \<Rightarrow> Inl Null_dereference
                            | Some w \<Rightarrow>
                                Inr (m\<lparr>out_writers :=
                                         (out_writers m)(0 \<mapsto> writer_add_filter f w)\<rparr>))
                      else Inr m)
            else Inr m)"

text \<open>
  The injector walk of EP0. The body of the innermost \<^verbatim>\<open>if\<close> holds only statements
  that are commented out (\<^verbatim>\<open>set_queue\<close>, \<^verbatim>\<open>set_send_queue\<close>), so a matching injector
  leaves the Manager as a non-matching one does.
\<close>

definition apply_injector_ep0 :: "Device \<Rightarrow> nat \<Rightarrow> Manager \<Rightarrow> fault + Manager" where
  "apply_injector_ep0 d i m =
     and_then (block_read (injectors m) i)
       (\<lambda>p. case p of
          None \<Rightarrow> Inl Null_dereference
        | Some injector \<Rightarrow>
            if inj_device injector d
            then (case out_endpoints m 0 of
                    None \<Rightarrow> Inr m
                  | Some ep \<Rightarrow> if inj_endpoint injector ep then Inr m else Inr m)
            else Inr m)"

definition start_injector_thread :: "nat \<Rightarrow> Manager \<Rightarrow> fault + Manager" where
  "start_injector_thread i m =
     and_then (block_read (injectors m) i)
       (\<lambda>_. Inr (emit (Thread_start (Injector_listen i))
                   (m\<lparr>injectorThreads := injectorThreads m @ [Injector_listen i]\<rparr>)))"

text \<open>From the start of the EP0 relay threads to the end of the method.\<close>

definition launch_ep0 :: "environment \<Rightarrow> Manager \<Rightarrow> fault + Manager" where
  "launch_ep0 env m =
     and_then (start_out_reader 0 m) (\<lambda>m1.
       let m2 = observe env After_reader_thread m1 in
       if status m2 \<noteq> USBM_SETUP then stop_relaying (m2\<lparr>status := USBM_SETUP_ABORT\<rparr>)
       else
         and_then (start_out_writer 0 m2) (\<lambda>m3.
           let m4 = observe env After_writer_thread m3 in
           if status m4 \<noteq> USBM_SETUP then stop_relaying m4
           else Inr (m4\<lparr>status := USBM_RELAYING\<rparr>)))"

text \<open>From the connection to the host proxy on.\<close>

definition host_setup :: "environment \<Rightarrow> Manager \<Rightarrow> (fault + Manager) option" where
  "host_setup env m =
     (case connect_host env m of
        None \<Rightarrow> None
      | Some (Inl e) \<Rightarrow> Some (Inl e)
      | Some (Inr (rc, m1)) \<Rightarrow>
          if rc \<noteq> 0 then Some (stop_relaying (m1\<lparr>status := USBM_SETUP_ABORT\<rparr>))
          else Some (launch_ep0 env m1))"

text \<open>From the construction of the EP0 reader and writer on.\<close>

definition relay_setup :: "environment \<Rightarrow> Device \<Rightarrow> Endpoint \<Rightarrow> Manager \<Rightarrow> (fault + Manager) option" where
  "relay_setup env d ep0 m =
     (let m1 = m\<lparr>out_readers := (out_readers m)
                   (0 \<mapsto> new_RelayReader ep0 Host_proxy Control_queues),
                 out_writers := (out_writers m)
                   (0 \<mapsto> new_RelayWriter ep0 Device_proxy True Control_queues)\<rparr>
      in case walk (apply_filter_ep0 d) Filter_walk env [0..<unat (filterCount m1)] m1 of
           Inl e \<Rightarrow> Some (Inl e)
         | Inr (returned2, m2) \<Rightarrow>
             if returned2 then Some (Inr m2)
             else
               (case walk (apply_injector_ep0 d) Injector_walk env
                       [0..<unat (injectorCount m2)] m2 of
                  Inl e \<Rightarrow> Some (Inl e)
                | Inr (returned3, m3) \<Rightarrow>
                    if returned3 then Some (Inr m3)
                    else
                      (case walk start_injector_thread Injector_thread env
                              [0..<unat (injectorCount m3)] m3 of
                         Inl e \<Rightarrow> Some (Inl e)
                       | Inr (returned4, m4) \<Rightarrow>
                           if returned4 then Some (Inr m4) else host_setup env m4)))"

text \<open>From the construction of the device model on.\<close>

definition control_setup :: "environment \<Rightarrow> Manager \<Rightarrow> (fault + Manager) option" where
  "control_setup env m =
     (let d = connected_device env;
          m1 = emit Device_print (m\<lparr>device := Some d\<rparr>)
      in case get_active_configuration d of
           None \<Rightarrow> Some (Inl Null_dereference)
         | Some cfg \<Rightarrow>
             (case claim_interfaces cfg m1 of
                Inl e \<Rightarrow> Some (Inl e)
              | Inr m2 \<Rightarrow>
                  (let m3 = observe env After_claim m2 in
                   if status m3 \<noteq> USBM_SETUP then Some (stop_relaying m3)
                   else
                     (let ep0 = \<lparr>ep_interface = None, ep_descriptor = ep0_descriptor d\<rparr>;
                          m4 = observe env After_ep0
                                 (m3\<lparr>out_endpoints := (out_endpoints m3)(0 \<mapsto> ep0)\<rparr>)
                      in if status m4 \<noteq> USBM_SETUP then Some (stop_relaying m4)
                         else relay_setup env d ep0 m4))))"

definition start_control_relaying :: "environment \<Rightarrow> Manager \<Rightarrow> (fault + Manager) option" where
  "start_control_relaying env m =
     (case connect_device env (m\<lparr>status := USBM_SETUP\<rparr>) of
        None \<Rightarrow> None
      | Some (Inl e) \<Rightarrow> Some (Inl e)
      | Some (Inr (rc, m1)) \<Rightarrow>
          if rc \<noteq> 0 then Some (Inr ((emit Log_unable_to_connect m1)\<lparr>status := USBM_IDLE\<rparr>))
          else control_setup env m1)"

section \<open>Reference notions and sample objects\<close>

text \<open>
  The registry invariant: the block pointer is null exactly when the count is zero, and
  otherwise the block has one written cell per counted element. The constructor
  establishes it.
\<close>

definition registry_ok :: "'a block \<Rightarrow> 8 word \<Rightarrow> bool" where
  "registry_ok b n =
     (case b of
        None \<Rightarrow> n = 0
      | Some xs \<Rightarrow> length xs = unat n \<and> 0 < n \<and> list_all (\<lambda>c. c \<noteq> Indeterminate) xs)"

text \<open>
  What a lookup is specified to return: null when the list is empty or the index is not
  below the count, otherwise the element stored at the index.
\<close>

definition element_at :: "'a block \<Rightarrow> 8 word \<Rightarrow> 8 word \<Rightarrow> 'a option" where
  "element_at b n index =
     (case b of
        None \<Rightarrow> None
      | Some xs \<Rightarrow>
          if n \<le> index then None
          else (case xs ! unat index of Stored p \<Rightarrow> p | Indeterminate \<Rightarrow> None))"

definition match_all_filter :: "nat \<Rightarrow> PacketFilter" where
  "match_all_filter n =
     \<lparr>pf_id = n, pf_device = (\<lambda>_. True), pf_configuration = (\<lambda>_. True),
      pf_interface = (\<lambda>_. True), pf_endpoint = (\<lambda>_. True)\<rparr>"

definition match_all_injector :: "nat \<Rightarrow> Injector" where
  "match_all_injector n =
     \<lparr>inj_id = n, inj_device = (\<lambda>_. True), inj_configuration = (\<lambda>_. True),
      inj_interface = (\<lambda>_. True), inj_endpoint = (\<lambda>_. True)\<rparr>"


text \<open>Two relations between a Manager before and after a step, used in the proofs.\<close>

definition trace_only :: "Manager \<Rightarrow> Manager \<Rightarrow> bool" where
  "trace_only m m' = (\<exists>t. m' = m\<lparr>trace := t\<rparr>)"

definition kept :: "Manager \<Rightarrow> Manager \<Rightarrow> bool" where
  "kept m m' =
     (status m' = status m \<and> deviceProxy m' = deviceProxy m \<and> hostProxy m' = hostProxy m \<and>
      device m' = device m \<and> filters m' = filters m \<and> filterCount m' = filterCount m \<and>
      injectors m' = injectors m \<and> injectorCount m' = injectorCount m \<and>
      in_queues m' = in_queues m \<and> out_queues m' = out_queues m \<and>
      queues_allocated m' = queues_allocated m)"

section \<open>Notions used in the statements and proofs about the relay fabric\<close>

text \<open>Projections of the Manager that the steps of the setup keep or change as a whole.\<close>

definition endpoint_tables ::
  "Manager \<Rightarrow> (nat \<Rightarrow> Endpoint option) \<times> (nat \<Rightarrow> nat cell) \<times> (nat \<Rightarrow> Endpoint option) \<times>
     (nat \<Rightarrow> nat cell) \<times> nat" where
  "endpoint_tables m =
     (in_endpoints m, in_queues m, out_endpoints m, out_queues m, queues_allocated m)"

definition relay_tables ::
  "Manager \<Rightarrow> (nat \<Rightarrow> RelayReader option) \<times> (nat \<Rightarrow> RelayWriter option) \<times>
     (nat \<Rightarrow> RelayReader option) \<times> (nat \<Rightarrow> RelayWriter option)" where
  "relay_tables m = (in_readers m, in_writers m, out_readers m, out_writers m)"

definition thread_tables ::
  "Manager \<Rightarrow> (nat \<Rightarrow> bool) \<times> (nat \<Rightarrow> bool) \<times> (nat \<Rightarrow> bool) \<times> (nat \<Rightarrow> bool) \<times> task list" where
  "thread_tables m =
     (in_readerThreads m, in_writerThreads m, out_readerThreads m, out_writerThreads m,
      injectorThreads m)"

definition setup_of ::
  "Manager \<Rightarrow> Manager_status \<times> bool \<times> bool \<times> Device option \<times> PacketFilter block \<times> 8 word \<times>
     Injector block \<times> 8 word" where
  "setup_of m =
     (status m, deviceProxy m, hostProxy m, device m, filters m, filterCount m, injectors m,
      injectorCount m)"

text \<open>The endpoints of a configuration, in the order in which the setup visits them.\<close>

definition configuration_endpoints :: "Configuration \<Rightarrow> (Interface \<times> Endpoint) list" where
  "configuration_endpoints cfg =
     concat (map (\<lambda>aifc. map (Pair aifc) (if_endpoints aifc)) (concat (cfg_interfaces cfg)))"

definition endpoints_of :: "Configuration \<Rightarrow> Endpoint list" where
  "endpoints_of cfg = map snd (configuration_endpoints cfg)"

definition relayed :: "Endpoint \<Rightarrow> bool" where
  "relayed ep = (\<not> is_isochronous (ep_descriptor ep))"

definition is_SetConfig :: "event \<Rightarrow> bool" where
  "is_SetConfig e = (case e of Proxy_call _ (SetConfig _ _ _) \<Rightarrow> True | _ \<Rightarrow> False)"

text \<open>
  A step is quiet when it keeps the setup part of the Manager and only appends events
  to the trace, none of them a \<^verbatim>\<open>setConfig\<close> call on a proxy.
\<close>

definition quiet :: "Manager \<Rightarrow> Manager \<Rightarrow> bool" where
  "quiet m m' =
     (setup_of m' = setup_of m \<and>
      (\<exists>rest. trace m' = trace m @ rest \<and> list_all (\<lambda>e. \<not> is_SetConfig e) rest))"

text \<open>Two writer slots with the same binding: only the filter chain may differ.\<close>

definition same_binding :: "RelayWriter option \<Rightarrow> RelayWriter option \<Rightarrow> bool" where
  "same_binding a b =
     (case a of
        None \<Rightarrow> b = None
      | Some w \<Rightarrow>
          (case b of
             None \<Rightarrow> False
           | Some w' \<Rightarrow>
               wr_endpoint w' = wr_endpoint w \<and> wr_proxy w' = wr_proxy w \<and>
               wr_queue w' = wr_queue w \<and> wr_manager w' = wr_manager w \<and>
               wr_injection w' = wr_injection w))"

text \<open>
  The pairing of a slot: an empty endpoint slot has neither reader nor writer; a filled
  one has a queue, a reader and a writer on that queue, the reader on the proxy the
  transfers come from and the writer on the proxy they go to.
\<close>

definition slot_paired ::
  "Proxy \<Rightarrow> Proxy \<Rightarrow> Endpoint option \<Rightarrow> nat cell \<Rightarrow> RelayReader option \<Rightarrow> RelayWriter option
     \<Rightarrow> bool" where
  "slot_paired source sink e q r w =
     (case e of
        None \<Rightarrow> r = None \<and> w = None
      | Some ep \<Rightarrow>
          (case q of
             Indeterminate \<Rightarrow> False
           | Stored k \<Rightarrow>
               r = Some (new_RelayReader ep source (Packet_queue k)) \<and>
               (case w of
                  None \<Rightarrow> False
                | Some wr \<Rightarrow>
                    wr_endpoint wr = ep \<and> wr_proxy wr = sink \<and>
                    wr_queue wr = Packet_queue k)))"

definition in_paired :: "Manager \<Rightarrow> nat \<Rightarrow> bool" where
  "in_paired m i =
     slot_paired Device_proxy Host_proxy
       (in_endpoints m i) (in_queues m i) (in_readers m i) (in_writers m i)"

definition out_paired :: "Manager \<Rightarrow> nat \<Rightarrow> bool" where
  "out_paired m i =
     slot_paired Host_proxy Device_proxy
       (out_endpoints m i) (out_queues m i) (out_readers m i) (out_writers m i)"

text \<open>
  What the construction loop leaves in a reader or writer slot: the old content when the
  endpoint slot is empty, a new relay on the slot's queue otherwise.
\<close>

definition constructed_reader ::
  "Proxy \<Rightarrow> Endpoint option \<Rightarrow> nat cell \<Rightarrow> RelayReader option \<Rightarrow> RelayReader option" where
  "constructed_reader source e q old =
     (case e of
        None \<Rightarrow> old
      | Some ep \<Rightarrow>
          (case q of
             Indeterminate \<Rightarrow> None
           | Stored k \<Rightarrow> Some (new_RelayReader ep source (Packet_queue k))))"

definition constructed_writer ::
  "Proxy \<Rightarrow> Endpoint option \<Rightarrow> nat cell \<Rightarrow> RelayWriter option \<Rightarrow> RelayWriter option" where
  "constructed_writer sink e q old =
     (case e of
        None \<Rightarrow> old
      | Some ep \<Rightarrow>
          (case q of
             Indeterminate \<Rightarrow> None
           | Stored k \<Rightarrow> Some (new_RelayWriter ep sink False (Packet_queue k))))"

text \<open>A step that may only extend filter chains of writers.\<close>

definition rechained :: "Manager \<Rightarrow> Manager \<Rightarrow> bool" where
  "rechained m m' =
     (endpoint_tables m' = endpoint_tables m \<and> thread_tables m' = thread_tables m \<and>
      setup_of m' = setup_of m \<and> trace m' = trace m \<and>
      in_readers m' = in_readers m \<and> out_readers m' = out_readers m \<and>
      (\<forall>i. same_binding (in_writers m i) (in_writers m' i) \<and>
           same_binding (out_writers m i) (out_writers m' i)))"

text \<open>A step that keeps the endpoint tables and the relays.\<close>

definition fabric_kept :: "Manager \<Rightarrow> Manager \<Rightarrow> bool" where
  "fabric_kept m m' =
     (endpoint_tables m' = endpoint_tables m \<and> relay_tables m' = relay_tables m \<and> quiet m m')"

text \<open>
  A sample device: one configuration (index 1) with one interface whose only alternate
  setting has a bulk IN endpoint 0x81, a bulk OUT endpoint 0x02 and an isochronous IN
  endpoint 0x83; no device qualifier, full speed. The sample environment connects both
  proxies at the first call and never interferes.
\<close>

definition sample_endpoint :: "8 word \<Rightarrow> 8 word \<Rightarrow> Endpoint" where
  "sample_endpoint address attributes =
     \<lparr>ep_interface = Some (0, 0),
      ep_descriptor =
        \<lparr>bLength = 7, bDescriptorType = 5, bEndpointAddress = address,
         bmAttributes = attributes, wMaxPacketSize = 512, bInterval = 1\<rparr>\<rparr>"

definition sample_configuration :: Configuration where
  "sample_configuration =
     \<lparr>bConfigurationValue = 1,
      cfg_interfaces =
        [[\<lparr>bInterfaceNumber = 0, bAlternateSetting = 0,
           if_endpoints =
             [sample_endpoint 0x81 2, sample_endpoint 0x02 2, sample_endpoint 0x83 1]\<rparr>]]\<rparr>"

definition sample_device :: Device where
  "sample_device =
     \<lparr>bMaxPacketSize0 = 64,
      dev_configurations = (\<lambda>index. if index = 1 then Some sample_configuration else None),
      dev_qualifier = None, dev_highspeed = False, dev_active = 1\<rparr>"

definition sample_environment :: environment where
  "sample_environment =
     \<lparr>device_connect = (\<lambda>_. 0), host_connect = (\<lambda>_. 0), connected_device = sample_device,
      stop_requested = (\<lambda>_. False)\<rparr>"

definition plugged_manager :: Manager where
  "plugged_manager = Manager_new\<lparr>deviceProxy := True, hostProxy := True\<rparr>"

definition configured_manager :: Manager where
  "configured_manager = plugged_manager\<lparr>status := USBM_RELAYING, device := Some sample_device\<rparr>"

text \<open>
  A high-speed variant of the sample device: it has a device qualifier whose
  configuration 1 (the other-speed configuration) has no interface.
\<close>

definition other_speed_configuration :: Configuration where
  "other_speed_configuration = \<lparr>bConfigurationValue = 1, cfg_interfaces = []\<rparr>"

definition highspeed_device :: Device where
  "highspeed_device =
     sample_device
       \<lparr>dev_qualifier :=
          Some \<lparr>dq_configurations =
                  (\<lambda>index. if index = 1 then Some other_speed_configuration else None)\<rparr>,
        dev_highspeed := True\<rparr>"

text \<open>
  What setConfig is specified to record: the update of the active configuration, then the
  same setConfig call on the device proxy and on the host proxy.
\<close>

definition dispatch_record ::
  "8 word \<Rightarrow> Configuration option \<Rightarrow> Configuration option \<Rightarrow> bool \<Rightarrow> event list" where
  "dispatch_record index fs_cfg hs_cfg hs =
     [Device_set_active_configuration index,
      Proxy_call Device_proxy (SetConfig fs_cfg hs_cfg hs),
      Proxy_call Host_proxy (SetConfig fs_cfg hs_cfg hs)]"

text \<open>
  The plugged Manager with one registered injector that matches everything, and an
  environment in which the device proxy times out four times and then fails with code 5.
\<close>

definition injecting_manager :: Manager where
  "injecting_manager =
     plugged_manager\<lparr>injectors := Some [Stored (Some (match_all_injector 0))],
                      injectorCount := 1\<rparr>"

definition failing_environment :: environment where
  "failing_environment =
     sample_environment\<lparr>device_connect := (\<lambda>n. if n < 4 then ETIMEDOUT else 5)\<rparr>"

text \<open>
  What a step of the control setup keeps: the registries, the binding and the injection
  intake of the EP0 writer, and the status, which may only go from SETUP to SETUP_ABORT.
  The second relation also keeps the injector threads.
\<close>

definition ep0_kept :: "Manager \<Rightarrow> Manager \<Rightarrow> bool" where
  "ep0_kept s s' =
     (injectors s' = injectors s \<and> injectorCount s' = injectorCount s \<and>
      filters s' = filters s \<and> filterCount s' = filterCount s \<and>
      same_binding (out_writers s 0) (out_writers s' 0) \<and>
      (status s' = status s \<or> status s = USBM_SETUP \<and> status s' = USBM_SETUP_ABORT))"

definition setting_up :: "Manager \<Rightarrow> Manager \<Rightarrow> bool" where
  "setting_up s s' = (ep0_kept s s' \<and> injectorThreads s' = injectorThreads s)"

definition in_setup :: "Manager \<Rightarrow> bool" where
  "in_setup s = (status s = USBM_SETUP \<or> status s = USBM_SETUP_ABORT)"

text \<open>The threads that the last loop of \<^verbatim>\<open>start_data_relaying\<close> starts for a slot.\<close>

definition started :: "Manager \<Rightarrow> nat \<Rightarrow> event list" where
  "started m i =
     (if in_readers m i \<noteq> None then [Thread_start (In_reader i)] else []) @
     (if in_writers m i \<noteq> None then [Thread_start (In_writer i)] else []) @
     (if out_readers m i \<noteq> None then [Thread_start (Out_reader i)] else []) @
     (if out_writers m i \<noteq> None then [Thread_start (Out_writer i)] else [])"

text \<open>
  A device whose configuration 1 has one interface with two alternate settings: in
  alternate 0 the endpoint 0x83 is isochronous, in alternate 1 it is a bulk endpoint.
\<close>

definition shared_slot_configuration :: Configuration where
  "shared_slot_configuration =
     \<lparr>bConfigurationValue = 1,
      cfg_interfaces =
        [[\<lparr>bInterfaceNumber = 0, bAlternateSetting = 0,
           if_endpoints = [sample_endpoint 0x83 1]\<rparr>,
          \<lparr>bInterfaceNumber = 0, bAlternateSetting = 1,
           if_endpoints = [sample_endpoint 0x83 2]\<rparr>]]\<rparr>"

definition shared_slot_manager :: Manager where
  "shared_slot_manager =
     plugged_manager
       \<lparr>status := USBM_RELAYING,
        device := Some (sample_device
          \<lparr>dev_configurations :=
             (\<lambda>index. if index = 1 then Some shared_slot_configuration else None)\<rparr>)\<rparr>"

text \<open>
  What a teardown records, computed from the Manager on which it starts: the stop
  requests to the injectors that are set and to the relays whose thread is joinable, the
  joins of the injector threads, the joins of the relay threads slot by slot, the release
  of the interfaces of the active configuration, and the two disconnections.
\<close>

definition injector_signalled :: "Manager \<Rightarrow> nat \<Rightarrow> event list" where
  "injector_signalled m i =
     (case block_read (injectors m) i of
        Inr (Some _) \<Rightarrow> [Please_stop (Injector_listen i)]
      | _ \<Rightarrow> [])"

definition signalled :: "Manager \<Rightarrow> nat \<Rightarrow> event list" where
  "signalled m i =
     (if in_readerThreads m i then [Please_stop (In_reader i)] else []) @
     (if in_writerThreads m i then [Please_stop (In_writer i)] else []) @
     (if out_readerThreads m i then [Please_stop (Out_reader i)] else []) @
     (if out_writerThreads m i then [Please_stop (Out_writer i)] else [])"

definition joined :: "Manager \<Rightarrow> nat \<Rightarrow> event list" where
  "joined m i =
     (if in_readers m i \<noteq> None \<and> in_readerThreads m i then [Thread_join (In_reader i)] else []) @
     (if in_writers m i \<noteq> None \<and> in_writerThreads m i then [Thread_join (In_writer i)] else []) @
     (if out_readers m i \<noteq> None \<and> out_readerThreads m i then [Thread_join (Out_reader i)] else []) @
     (if out_writers m i \<noteq> None \<and> out_writerThreads m i then [Thread_join (Out_writer i)] else [])"

definition released :: "Manager \<Rightarrow> event list" where
  "released m =
     (case device m of
        None \<Rightarrow> []
      | Some d \<Rightarrow>
          (case get_active_configuration d of
             None \<Rightarrow> []
           | Some cfg \<Rightarrow>
               map (\<lambda>k. Proxy_call Device_proxy (Release_interface k)) [0..<bNumInterfaces cfg]))"

definition teardown_record :: "Manager \<Rightarrow> event list" where
  "teardown_record m =
     concat (map (injector_signalled m) [0..<unat (injectorCount m)]) @
     concat (map (signalled m) [0..<16]) @
     map Thread_join (injectorThreads m) @
     concat (map (joined m) [0..<16]) @
     released m @
     [Proxy_call Host_proxy Disconnect, Proxy_call Device_proxy Disconnect]"

text \<open>
  The Manager after a teardown: IDLE, without device model and injector threads, the
  sixteen slots of every endpoint, reader and writer table empty and no relay thread
  joinable; the proxies, the registries and the queue slots as before; the trace extended
  by the record of the teardown.
\<close>

definition torn_down :: "Manager \<Rightarrow> Manager \<Rightarrow> bool" where
  "torn_down m m' =
     (status m' = USBM_IDLE \<and> device m' = None \<and> injectorThreads m' = [] \<and>
      list_all (\<lambda>i. in_endpoints m' i = None \<and> in_readers m' i = None \<and>
                     in_writers m' i = None \<and> out_endpoints m' i = None \<and>
                     out_readers m' i = None \<and> out_writers m' i = None \<and>
                     \<not> in_readerThreads m' i \<and> \<not> in_writerThreads m' i \<and>
                     \<not> out_readerThreads m' i \<and> \<not> out_writerThreads m' i) [0..<16] \<and>
      deviceProxy m' = deviceProxy m \<and> hostProxy m' = hostProxy m \<and>
      filters m' = filters m \<and> filterCount m' = filterCount m \<and>
      injectors m' = injectors m \<and> injectorCount m' = injectorCount m \<and>
      in_queues m' = in_queues m \<and> out_queues m' = out_queues m \<and>
      queues_allocated m' = queues_allocated m \<and>
      trace m' = trace m @ teardown_record m)"

section \<open>Verified properties\<close>

text \<open>
  C1. The claim: a call of add_filter, remove_filter, add_injector or remove_injector made
  while the status is outside IDLE and RESET is rejected, the list and its count staying
  as they were. The methods print the refusal and then go on: in status RELAYING the two
  additions store the element and raise the count to 1, and the two removals empty the
  list and lower the count to 0.
\<close>

theorem registry_not_gated:
  "add_filter (Some (match_all_filter 0)) (Manager_new\<lparr>status := USBM_RELAYING\<rparr>) =
     Inr (Manager_new\<lparr>status := USBM_RELAYING, filters := Some [Stored (Some (match_all_filter 0))],
            filterCount := 1, trace := [Log_cant_add_filters]\<rparr>) \<and>
   remove_filter 0 False
       (Manager_new\<lparr>status := USBM_RELAYING, filters := Some [Stored (Some (match_all_filter 0))],
          filterCount := 1\<rparr>) =
     Inr (Manager_new\<lparr>status := USBM_RELAYING, trace := [Log_cant_remove_filters]\<rparr>) \<and>
   add_injector (Some (match_all_injector 0)) (Manager_new\<lparr>status := USBM_RELAYING\<rparr>) =
     Inr (Manager_new\<lparr>status := USBM_RELAYING,
            injectors := Some [Stored (Some (match_all_injector 0))],
            injectorCount := 1, trace := [Log_cant_add_injectors]\<rparr>) \<and>
   remove_injector 0 False
       (Manager_new\<lparr>status := USBM_RELAYING,
          injectors := Some [Stored (Some (match_all_injector 0))], injectorCount := 1\<rparr>) =
     Inr (Manager_new\<lparr>status := USBM_RELAYING, trace := [Log_cant_remove_injectors]\<rparr>)"
  by (simp add: add_filter_def remove_filter_def add_injector_def remove_injector_def
        Manager_new_def emit_def realloc_def block_write_def and_then_def)

text \<open>
  C2. The claim: remove_filter and remove_injector with an empty list or with an index
  not below the count log the error and skip the operation. The methods log the error and
  then go on: the only element of a one-element list is removed at index 5, the last
  element of a two-element list is removed at index 7, and on the empty list the count
  wraps around to 255 over a block of indeterminate cells.
\<close>

theorem remove_out_of_range_not_skipped:
  "remove_filter 5 False
       (Manager_new\<lparr>filters := Some [Stored (Some (match_all_filter 0))], filterCount := 1\<rparr>) =
     Inr (Manager_new\<lparr>trace := [Log_filter_index_out_of_bounds]\<rparr>) \<and>
   remove_filter 7 False
       (Manager_new\<lparr>filters := Some [Stored (Some (match_all_filter 0)),
                                       Stored (Some (match_all_filter 1))],
          filterCount := 2\<rparr>) =
     Inr (Manager_new\<lparr>filters := Some [Stored (Some (match_all_filter 0))], filterCount := 1,
            trace := [Log_filter_index_out_of_bounds]\<rparr>) \<and>
   remove_injector 5 False
       (Manager_new\<lparr>injectors := Some [Stored (Some (match_all_injector 0))],
          injectorCount := 1\<rparr>) =
     Inr (Manager_new\<lparr>trace := [Log_injector_index_out_of_bounds]\<rparr>) \<and>
   remove_filter 0 False Manager_new =
     Inr (Manager_new\<lparr>filters := Some (replicate 255 Indeterminate), filterCount := 255,
            trace := [Log_filter_index_out_of_bounds]\<rparr>)"
  by (simp add: remove_filter_def remove_injector_def
        Manager_new_def emit_def realloc_def block_shift_def and_then_def unsigned_minus_1_eq_mask mask_eq_exp_minus_1)

lemma block_read_registry_ok:
  "registry_ok b n \<Longrightarrow> b = Some xs \<Longrightarrow> index < n \<Longrightarrow> block_read b (unat index) = Inr (element_at b n index)"
  by (cases "xs ! unat index")
     (auto simp: registry_ok_def block_read_def element_at_def list_all_length word_less_nat_alt
        word_le_nat_alt)

text \<open>
  C10. For every index, get_filter and get_injector return null when the list is empty or
  the index is not below the count, and the element stored at the index otherwise; the
  Manager they return is the Manager they received.
\<close>

theorem get_filter_get_injector_lookup:
  assumes "registry_ok (filters m) (filterCount m)"
      and "registry_ok (injectors m) (injectorCount m)"
  shows "get_filter index m = Inr (element_at (filters m) (filterCount m) index, m) \<and>
         get_injector index m = Inr (element_at (injectors m) (injectorCount m) index, m)"
proof
  show "get_filter index m = Inr (element_at (filters m) (filterCount m) index, m)"
  proof (cases "filters m")
    case None
    then show ?thesis by (simp add: get_filter_def element_at_def)
  next
    case (Some xs)
    show ?thesis
    proof (cases "filterCount m \<le> index")
      case True
      then show ?thesis using Some by (simp add: get_filter_def element_at_def)
    next
      case False
      then have "index < filterCount m" by simp
      from block_read_registry_ok [OF assms(1) Some this] False Some
      show ?thesis by (simp add: get_filter_def and_then_def)
    qed
  qed
  show "get_injector index m = Inr (element_at (injectors m) (injectorCount m) index, m)"
  proof (cases "injectors m")
    case None
    then show ?thesis by (simp add: get_injector_def element_at_def)
  next
    case (Some xs)
    show ?thesis
    proof (cases "injectorCount m \<le> index")
      case True
      then show ?thesis using Some by (simp add: get_injector_def element_at_def)
    next
      case False
      then have "index < injectorCount m" by simp
      from block_read_registry_ok [OF assms(2) Some this] False Some
      show ?thesis by (simp add: get_injector_def and_then_def)
    qed
  qed
qed


theorem get_filter_get_injector_lookup_witness:
  "get_filter 0 (Manager_new\<lparr>filters := Some [Stored (Some (match_all_filter 0))],
                               filterCount := 1\<rparr>) =
     Inr (Some (match_all_filter 0),
          Manager_new\<lparr>filters := Some [Stored (Some (match_all_filter 0))], filterCount := 1\<rparr>) \<and>
   get_filter 1 (Manager_new\<lparr>filters := Some [Stored (Some (match_all_filter 0))],
                               filterCount := 1\<rparr>) =
     Inr (None,
          Manager_new\<lparr>filters := Some [Stored (Some (match_all_filter 0))], filterCount := 1\<rparr>) \<and>
   get_injector 0 (Manager_new\<lparr>filters := Some [Stored (Some (match_all_filter 0))],
                                 filterCount := 1\<rparr>) =
     Inr (None,
          Manager_new\<lparr>filters := Some [Stored (Some (match_all_filter 0))], filterCount := 1\<rparr>)"
  using get_filter_get_injector_lookup
          [of "Manager_new\<lparr>filters := Some [Stored (Some (match_all_filter 0))],
                             filterCount := 1\<rparr>" 0]
        get_filter_get_injector_lookup
          [of "Manager_new\<lparr>filters := Some [Stored (Some (match_all_filter 0))],
                             filterCount := 1\<rparr>" 1]
  by (simp add: registry_ok_def element_at_def Manager_new_def)

section \<open>Sequencing and the teardown\<close>


lemma for_each_invariant:
  assumes "for_each body xs s = Inr s'" and "I s"
      and "\<And>x s s'. x \<in> set xs \<Longrightarrow> I s \<Longrightarrow> body x s = Inr s' \<Longrightarrow> I s'"
  shows "I s'"
  using assms
proof (induction xs arbitrary: s)
  case Nil
  then show ?case by simp
next
  case (Cons x xs)
  from Cons.prems(1) obtain s1 where s1: "body x s = Inr s1" "for_each body xs s1 = Inr s'"
    by (auto simp: and_then_def split: sum.splits)
  have "I s1" using Cons.prems(3) [OF _ Cons.prems(2) s1(1)] by simp
  show ?case
  proof (rule Cons.IH [OF s1(2) \<open>I s1\<close>])
    fix y t t'
    assume "y \<in> set xs" "I t" "body y t = Inr t'"
    then show "I t'" using Cons.prems(3) [of y t t'] by simp
  qed
qed


lemma trace_onlyI [simp]: "trace_only m (m\<lparr>trace := t\<rparr>)"
  by (auto simp: trace_only_def)

lemma trace_only_refl [simp]: "trace_only m m"
  using trace_onlyI [of m "trace m"] by simp

lemma trace_only_emit [simp]: "trace_only m s \<Longrightarrow> trace_only m (emit e s)"
  by (auto simp: trace_only_def emit_def)






lemma kept_refl [simp]: "kept m m"
  by (simp add: kept_def)

lemma kept_trans: "kept a b \<Longrightarrow> kept b c \<Longrightarrow> kept a c"
  by (simp add: kept_def)

lemma kept_emit [simp]: "kept m (emit e m)"
  by (simp add: kept_def emit_def)

lemma kept_fold:
  assumes "\<And>x s. kept s (f x s)"
  shows "kept m (fold f xs m)"
proof (induction xs arbitrary: m)
  case Nil
  show ?case by simp
next
  case (Cons x xs)
  have "kept m (f x m)" by (rule assms)
  moreover have "kept (f x m) (fold f xs (f x m))" by (rule Cons.IH)
  ultimately show ?case using kept_trans by simp
qed

lemma kept_join_injectors: "kept m (join_injectors m)"
proof -
  have "kept m (fold (\<lambda>t. emit (Thread_join t)) (injectorThreads m) m)"
    by (rule kept_fold) simp
  then show ?thesis by (simp add: join_injectors_def kept_def)
qed

lemma kept_field_updates [simp]:
  "kept m (m\<lparr>in_endpoints := a\<rparr>)" "kept m (m\<lparr>out_endpoints := a\<rparr>)"
  "kept m (m\<lparr>in_readers := b\<rparr>)" "kept m (m\<lparr>out_readers := b\<rparr>)"
  "kept m (m\<lparr>in_writers := c\<rparr>)" "kept m (m\<lparr>out_writers := c\<rparr>)"
  "kept m (m\<lparr>in_readerThreads := d\<rparr>)" "kept m (m\<lparr>out_readerThreads := d\<rparr>)"
  "kept m (m\<lparr>in_writerThreads := d\<rparr>)" "kept m (m\<lparr>out_writerThreads := d\<rparr>)"
  "kept m (m\<lparr>injectorThreads := ts\<rparr>)" "kept m (m\<lparr>trace := tr\<rparr>)"
  by (simp_all add: kept_def)

lemma kept_release_in_reader: "kept m (release_in_reader i m)"
  unfolding release_in_reader_def Let_def
  by (cases "in_readers m i") (simp_all add: kept_def emit_def)

lemma kept_release_in_writer: "kept m (release_in_writer i m)"
  unfolding release_in_writer_def Let_def
  by (cases "in_writers m i") (simp_all add: kept_def emit_def)

lemma kept_release_out_reader: "kept m (release_out_reader i m)"
  unfolding release_out_reader_def Let_def
  by (cases "out_readers m i") (simp_all add: kept_def emit_def)

lemma kept_release_out_writer: "kept m (release_out_writer i m)"
  unfolding release_out_writer_def Let_def
  by (cases "out_writers m i") (simp_all add: kept_def emit_def)

lemma kept_release_slot: "kept m (release_slot i m)"
  unfolding release_slot_def Let_def
  by (rule kept_trans [OF kept_field_updates(1)],
      rule kept_trans [OF kept_release_in_reader],
      rule kept_trans [OF kept_release_in_writer],
      rule kept_trans [OF kept_field_updates(2)],
      rule kept_trans [OF kept_release_out_reader],
      rule kept_release_out_writer)

lemma kept_delete_ep0: "kept m (delete_ep0 m)"
  by (simp add: delete_ep0_def kept_def emit_def split: option.splits)






lemma upt_16: "[0..<16] = [0,1,2,3,4,5,6,7,8,9,10,11,12,13,14,15::nat]"
  by (simp add: upt_rec)

lemma and_then_Inr: "and_then (Inr x) f = f x"
  by (simp add: and_then_def)

lemma and_then_Inl: "and_then (Inl e) f = Inl e"
  by (simp add: and_then_def)

lemma and_then_weak_cong: "r = r' \<Longrightarrow> and_then r f = and_then r' f"
  by simp

lemmas run = and_then_Inr and_then_Inl upt_16 Manager_new_def emit_def
  proxy_call_def proxy_present_def
  stop_relaying_def signal_injector_def signal_relayers_def signal_thread_def join_injectors_def
  release_slot_def release_in_reader_def release_in_writer_def release_out_reader_def
  release_out_writer_def delete_ep0_def release_interfaces_def 


section \<open>The data endpoints\<close>

subsection \<open>Loops\<close>

lemma for_each_append:
  "for_each body (xs @ ys) s = and_then (for_each body xs s) (for_each body ys)"
  by (induction xs arbitrary: s) (simp_all add: and_then_def split: sum.splits)

lemma for_each_concat:
  "for_each (\<lambda>xs. for_each body xs) xss s = for_each body (concat xss) s"
proof (induction xss arbitrary: s)
  case Nil
  show ?case by simp
next
  case (Cons xs xss)
  then show ?case by (simp add: for_each_append and_then_def split: sum.splits)
qed

lemma for_each_map:
  "for_each body (map f xs) s = for_each (\<lambda>x. body (f x)) xs s"
  by (induction xs arbitrary: s) (simp_all add: and_then_def split: sum.splits)

lemma enumerate_endpoints_flat:
  "enumerate_endpoints cfg m =
     for_each (\<lambda>(aifc, ep). install_endpoint aifc ep) (configuration_endpoints cfg) m"
proof -
  have 1: "(\<lambda>aifc. for_each (install_endpoint aifc) (if_endpoints aifc)) =
        (\<lambda>aifc. for_each (\<lambda>(aifc, ep). install_endpoint aifc ep) (map (Pair aifc) (if_endpoints aifc)))"
    by (rule ext, rule ext) (simp add: for_each_map)
  show ?thesis
    unfolding enumerate_endpoints_def configuration_endpoints_def
    by (simp add: for_each_concat 1 for_each_map [symmetric, where f = "\<lambda>aifc. map (Pair aifc) (if_endpoints aifc)"])
qed


lemma for_each_Cons_Inr:
  "for_each body (x # xs) s = Inr s' \<Longrightarrow> \<exists>s1. body x s = Inr s1 \<and> for_each body xs s1 = Inr s'"
  by (auto simp: and_then_def split: sum.splits)

lemma for_each_establish:
  assumes "for_each body xs s = Inr s'" and "x \<in> set xs"
      and est: "\<And>t t'. body x t = Inr t' \<Longrightarrow> Q t'"
      and pres: "\<And>y t t'. y \<in> set xs \<Longrightarrow> body y t = Inr t' \<Longrightarrow> Q t \<Longrightarrow> Q t'"
  shows "Q s'"
  using assms(1,2) pres
proof (induction xs arbitrary: s)
  case Nil
  then show ?case by simp
next
  case (Cons y ys)
  from for_each_Cons_Inr [OF Cons.prems(1)] obtain s1 where
    s1: "body y s = Inr s1" "for_each body ys s1 = Inr s'" by blast
  have pres': "Q t'" if "z \<in> set ys" "body z t = Inr t'" "Q t" for z t t'
    by (rule Cons.prems(3) [of z t t']) (use that in simp_all)
  show ?case
  proof (cases "x = y")
    case True
    with s1(1) have "Q s1" using est by simp
    with s1(2) show ?thesis
      by (rule for_each_invariant) (use pres' in blast)
  next
    case False
    with Cons.prems(2) have "x \<in> set ys" by simp
    with s1(2) show ?thesis using pres' by (rule Cons.IH)
  qed
qed

subsection \<open>Quiet steps\<close>

lemma quiet_refl [simp]: "quiet m m"
  by (simp add: quiet_def)

lemma quiet_trans: "quiet a b \<Longrightarrow> quiet b c \<Longrightarrow> quiet a c"
  by (auto simp: quiet_def)

lemma quiet_emit: "\<not> is_SetConfig e \<Longrightarrow> quiet m (emit e m)"
  by (simp add: quiet_def emit_def setup_of_def)

lemma quiet_proxy_call:
  "proxy_call p c m = Inr m' \<Longrightarrow> \<not> is_SetConfig (Proxy_call p c) \<Longrightarrow> quiet m m'"
  by (auto simp: proxy_call_def quiet_emit split: if_splits)

lemma quiet_for_each:
  assumes "for_each body xs m = Inr m'"
      and "\<And>x s s'. x \<in> set xs \<Longrightarrow> body x s = Inr s' \<Longrightarrow> quiet s s'"
  shows "quiet m m'"
  using assms(1)
proof (rule for_each_invariant)
  show "quiet m m" by simp
next
  fix x s s'
  assume "x \<in> set xs" "quiet m s" "body x s = Inr s'"
  then show "quiet m s'" using assms(2) quiet_trans by blast
qed

lemma emit_tables [simp]:
  "endpoint_tables (emit e m) = endpoint_tables m"
  "relay_tables (emit e m) = relay_tables m"
  "thread_tables (emit e m) = thread_tables m"
  "setup_of (emit e m) = setup_of m"
  by (simp_all add: emit_def endpoint_tables_def relay_tables_def thread_tables_def setup_of_def)

lemma proxy_call_tables:
  assumes "proxy_call p c m = Inr m'"
  shows "endpoint_tables m' = endpoint_tables m" "relay_tables m' = relay_tables m"
    "thread_tables m' = thread_tables m" "setup_of m' = setup_of m"
    "trace m' = trace m @ [Proxy_call p c]"
  using assms
  by (auto simp: proxy_call_def emit_def endpoint_tables_def relay_tables_def thread_tables_def
        setup_of_def split: if_splits)

subsection \<open>The enumeration of the endpoints\<close>

lemma install_isochronous:
  assumes "\<not> relayed ep"
  shows "install_endpoint aifc ep m =
           Inr (emit (Log_isochronous (bEndpointAddress (ep_descriptor ep))) m)"
  using assms by (simp add: install_endpoint_def relayed_def)

lemma install_in:
  assumes "install_endpoint aifc ep m = Inr m'" and "relayed ep" and "is_in (ep_descriptor ep)"
  shows "in_endpoints m' = (in_endpoints m)(slot_of (ep_descriptor ep) \<mapsto> ep)"
    "in_queues m' = (in_queues m)(slot_of (ep_descriptor ep) := Stored (queues_allocated m))"
    "out_endpoints m' = out_endpoints m" "out_queues m' = out_queues m"
    "queues_allocated m' = Suc (queues_allocated m)"
  using assms
  by (auto simp: install_endpoint_def relayed_def proxy_call_def emit_def Let_def
      split: if_splits)

lemma install_out:
  assumes "install_endpoint aifc ep m = Inr m'" and "relayed ep" and "\<not> is_in (ep_descriptor ep)"
  shows "out_endpoints m' = (out_endpoints m)(slot_of (ep_descriptor ep) \<mapsto> ep)"
    "out_queues m' = (out_queues m)(slot_of (ep_descriptor ep) := Stored (queues_allocated m))"
    "in_endpoints m' = in_endpoints m" "in_queues m' = in_queues m"
    "queues_allocated m' = Suc (queues_allocated m)"
  using assms
  by (auto simp: install_endpoint_def relayed_def proxy_call_def emit_def Let_def
      split: if_splits)

lemma install_frame:
  assumes "install_endpoint aifc ep m = Inr m'"
  shows "relay_tables m' = relay_tables m" "thread_tables m' = thread_tables m" "quiet m m'"
  using assms
  by (auto simp: install_endpoint_def proxy_call_def emit_def relay_tables_def
        thread_tables_def quiet_def setup_of_def is_SetConfig_def Let_def split: if_splits)


lemma install_cases:
  assumes "install_endpoint aifc ep m = Inr m'"
  obtains
    (skipped) "\<not> relayed ep"
      "m' = emit (Log_isochronous (bEndpointAddress (ep_descriptor ep))) m"
  | (inward) "relayed ep" "is_in (ep_descriptor ep)"
      "in_endpoints m' = (in_endpoints m)(slot_of (ep_descriptor ep) \<mapsto> ep)"
      "in_queues m' = (in_queues m)(slot_of (ep_descriptor ep) := Stored (queues_allocated m))"
      "out_endpoints m' = out_endpoints m" "out_queues m' = out_queues m"
      "queues_allocated m' = Suc (queues_allocated m)"
  | (outward) "relayed ep" "\<not> is_in (ep_descriptor ep)"
      "out_endpoints m' = (out_endpoints m)(slot_of (ep_descriptor ep) \<mapsto> ep)"
      "out_queues m' = (out_queues m)(slot_of (ep_descriptor ep) := Stored (queues_allocated m))"
      "in_endpoints m' = in_endpoints m" "in_queues m' = in_queues m"
      "queues_allocated m' = Suc (queues_allocated m)"
proof (cases "relayed ep")
  case False
  with assms install_isochronous [OF False, of aifc m] show ?thesis by (auto intro: skipped)
next
  case True
  show ?thesis
  proof (cases "is_in (ep_descriptor ep)")
    case True
    from install_in [OF assms \<open>relayed ep\<close> True] show ?thesis
      using \<open>relayed ep\<close> True by (rule_tac inward) 
  next
    case False
    from install_out [OF assms \<open>relayed ep\<close> False] show ?thesis
      using \<open>relayed ep\<close> False by (rule_tac outward)
  qed
qed

lemma enumerate_frame:
  assumes "enumerate_endpoints cfg m = Inr m1"
  shows "relay_tables m1 = relay_tables m \<and> thread_tables m1 = thread_tables m \<and> quiet m m1"
  using assms unfolding enumerate_endpoints_flat
proof (rule for_each_invariant)
  show "relay_tables m = relay_tables m \<and> thread_tables m = thread_tables m \<and> quiet m m"
    by simp
next
  fix x s s'
  assume "relay_tables s = relay_tables m \<and> thread_tables s = thread_tables m \<and> quiet m s"
    and "(case x of (aifc, ep) \<Rightarrow> install_endpoint aifc ep) s = Inr s'"
  then show "relay_tables s' = relay_tables m \<and> thread_tables s' = thread_tables m \<and> quiet m s'"
    using install_frame [of "fst x" "snd x" s s'] quiet_trans [of m s s']
    by (cases x) simp
qed

lemma enumerate_queue_count_flat:
  "for_each (\<lambda>(aifc, ep). install_endpoint aifc ep) L m = Inr m1 \<Longrightarrow>
   queues_allocated m1 = queues_allocated m + length (filter relayed (map snd L))"
proof (induction L arbitrary: m)
  case Nil
  then show ?case by simp
next
  case (Cons x L)
  obtain aifc ep where x: "x = (aifc, ep)" by (cases x)
  from for_each_Cons_Inr [OF Cons.prems] x obtain s where
    s: "install_endpoint aifc ep m = Inr s"
      "for_each (\<lambda>(aifc, ep). install_endpoint aifc ep) L s = Inr m1"
    by auto
  from s(1) have "queues_allocated s = queues_allocated m + (if relayed ep then 1 else 0)"
    by (cases rule: install_cases) (simp_all add: emit_def)
  with Cons.IH [OF s(2)] x show ?case by simp
qed

lemma enumerate_queue_count:
  "enumerate_endpoints cfg m = Inr m1 \<Longrightarrow>
   queues_allocated m1 = queues_allocated m + length (filter relayed (endpoints_of cfg))"
  unfolding enumerate_endpoints_flat endpoints_of_def by (rule enumerate_queue_count_flat)

lemma enumerate_in_origin:
  assumes "enumerate_endpoints cfg m = Inr m1"
  shows "\<forall>s ep. in_endpoints m1 s = Some ep \<longrightarrow>
           in_endpoints m s = Some ep \<or>
           (ep \<in> set (endpoints_of cfg) \<and> relayed ep \<and> is_in (ep_descriptor ep) \<and>
            slot_of (ep_descriptor ep) = s)"
  using assms unfolding enumerate_endpoints_flat
proof (rule for_each_invariant)
  show "\<forall>s ep. in_endpoints m s = Some ep \<longrightarrow>
           in_endpoints m s = Some ep \<or>
           (ep \<in> set (endpoints_of cfg) \<and> relayed ep \<and> is_in (ep_descriptor ep) \<and>
            slot_of (ep_descriptor ep) = s)"
    by simp
next
  fix x t t'
  assume x: "x \<in> set (configuration_endpoints cfg)"
    and inv: "\<forall>s ep. in_endpoints t s = Some ep \<longrightarrow>
           in_endpoints m s = Some ep \<or>
           (ep \<in> set (endpoints_of cfg) \<and> relayed ep \<and> is_in (ep_descriptor ep) \<and>
            slot_of (ep_descriptor ep) = s)"
    and step: "(case x of (aifc, ep) \<Rightarrow> install_endpoint aifc ep) t = Inr t'"
  obtain aifc e where xe: "x = (aifc, e)" by (cases x)
  from x xe have mem: "e \<in> set (endpoints_of cfg)" by (force simp: endpoints_of_def)
  from step xe have "install_endpoint aifc e t = Inr t'" by simp
  then show "\<forall>s ep. in_endpoints t' s = Some ep \<longrightarrow>
           in_endpoints m s = Some ep \<or>
           (ep \<in> set (endpoints_of cfg) \<and> relayed ep \<and> is_in (ep_descriptor ep) \<and>
            slot_of (ep_descriptor ep) = s)"
    using inv mem by (cases rule: install_cases) (auto simp: emit_def split: if_splits)
qed

lemma enumerate_out_origin:
  assumes "enumerate_endpoints cfg m = Inr m1"
  shows "\<forall>s ep. out_endpoints m1 s = Some ep \<longrightarrow>
           out_endpoints m s = Some ep \<or>
           (ep \<in> set (endpoints_of cfg) \<and> relayed ep \<and> \<not> is_in (ep_descriptor ep) \<and>
            slot_of (ep_descriptor ep) = s)"
  using assms unfolding enumerate_endpoints_flat
proof (rule for_each_invariant)
  show "\<forall>s ep. out_endpoints m s = Some ep \<longrightarrow>
           out_endpoints m s = Some ep \<or>
           (ep \<in> set (endpoints_of cfg) \<and> relayed ep \<and> \<not> is_in (ep_descriptor ep) \<and>
            slot_of (ep_descriptor ep) = s)"
    by simp
next
  fix x t t'
  assume x: "x \<in> set (configuration_endpoints cfg)"
    and inv: "\<forall>s ep. out_endpoints t s = Some ep \<longrightarrow>
           out_endpoints m s = Some ep \<or>
           (ep \<in> set (endpoints_of cfg) \<and> relayed ep \<and> \<not> is_in (ep_descriptor ep) \<and>
            slot_of (ep_descriptor ep) = s)"
    and step: "(case x of (aifc, ep) \<Rightarrow> install_endpoint aifc ep) t = Inr t'"
  obtain aifc e where xe: "x = (aifc, e)" by (cases x)
  from x xe have mem: "e \<in> set (endpoints_of cfg)" by (force simp: endpoints_of_def)
  from step xe have "install_endpoint aifc e t = Inr t'" by simp
  then show "\<forall>s ep. out_endpoints t' s = Some ep \<longrightarrow>
           out_endpoints m s = Some ep \<or>
           (ep \<in> set (endpoints_of cfg) \<and> relayed ep \<and> \<not> is_in (ep_descriptor ep) \<and>
            slot_of (ep_descriptor ep) = s)"
    using inv mem by (cases rule: install_cases) (auto simp: emit_def split: if_splits)
qed

lemma install_in_monotone:
  assumes "install_endpoint aifc ep m = Inr m'"
  shows "in_endpoints m s \<noteq> None \<and> in_queues m s \<noteq> Indeterminate \<Longrightarrow>
         in_endpoints m' s \<noteq> None \<and> in_queues m' s \<noteq> Indeterminate"
    and "out_endpoints m s \<noteq> None \<and> out_queues m s \<noteq> Indeterminate \<Longrightarrow>
         out_endpoints m' s \<noteq> None \<and> out_queues m' s \<noteq> Indeterminate"
    and "in_endpoints m s \<noteq> None \<Longrightarrow> in_endpoints m' s \<noteq> None"
    and "out_endpoints m s \<noteq> None \<Longrightarrow> out_endpoints m' s \<noteq> None"
    and "set (trace m) \<subseteq> set (trace m')"
proof -
  show "in_endpoints m s \<noteq> None \<and> in_queues m s \<noteq> Indeterminate \<Longrightarrow>
         in_endpoints m' s \<noteq> None \<and> in_queues m' s \<noteq> Indeterminate"
    using assms by (cases rule: install_cases) (auto simp: emit_def)
  show "out_endpoints m s \<noteq> None \<and> out_queues m s \<noteq> Indeterminate \<Longrightarrow>
         out_endpoints m' s \<noteq> None \<and> out_queues m' s \<noteq> Indeterminate"
    using assms by (cases rule: install_cases) (auto simp: emit_def)
  show "in_endpoints m s \<noteq> None \<Longrightarrow> in_endpoints m' s \<noteq> None"
    using assms by (cases rule: install_cases) (auto simp: emit_def)
  show "out_endpoints m s \<noteq> None \<Longrightarrow> out_endpoints m' s \<noteq> None"
    using assms by (cases rule: install_cases) (auto simp: emit_def)
  show "set (trace m) \<subseteq> set (trace m')"
    using assms
    by (auto simp: install_endpoint_def proxy_call_def emit_def Let_def split: if_splits)
qed

lemma enumerate_installed:
  assumes run: "enumerate_endpoints cfg m = Inr m1"
      and ep: "ep \<in> set (endpoints_of cfg)" "relayed ep"
  shows "if is_in (ep_descriptor ep)
         then in_endpoints m1 (slot_of (ep_descriptor ep)) \<noteq> None \<and>
              in_queues m1 (slot_of (ep_descriptor ep)) \<noteq> Indeterminate
         else out_endpoints m1 (slot_of (ep_descriptor ep)) \<noteq> None \<and>
              out_queues m1 (slot_of (ep_descriptor ep)) \<noteq> Indeterminate"
proof -
  from ep(1) obtain aifc where x: "(aifc, ep) \<in> set (configuration_endpoints cfg)"
    by (auto simp: endpoints_of_def)
  let ?s = "slot_of (ep_descriptor ep)"
  show ?thesis
  proof (cases "is_in (ep_descriptor ep)")
    case True
    have "in_endpoints m1 ?s \<noteq> None \<and> in_queues m1 ?s \<noteq> Indeterminate"
      using run [unfolded enumerate_endpoints_flat] x
    proof (rule for_each_establish)
      fix t t'
      assume "(case (aifc, ep) of (aifc, ep) \<Rightarrow> install_endpoint aifc ep) t = Inr t'"
      then have "install_endpoint aifc ep t = Inr t'" by simp
      from install_in [OF this ep(2) True]
      show "in_endpoints t' ?s \<noteq> None \<and> in_queues t' ?s \<noteq> Indeterminate" by simp
    next
      fix y t t'
      assume "(case y of (aifc, ep) \<Rightarrow> install_endpoint aifc ep) t = Inr t'"
        and "in_endpoints t ?s \<noteq> None \<and> in_queues t ?s \<noteq> Indeterminate"
      then show "in_endpoints t' ?s \<noteq> None \<and> in_queues t' ?s \<noteq> Indeterminate"
        using install_in_monotone(1) [of "fst y" "snd y" t t' ?s] by (cases y) simp
    qed
    with True show ?thesis by simp
  next
    case False
    have "out_endpoints m1 ?s \<noteq> None \<and> out_queues m1 ?s \<noteq> Indeterminate"
      using run [unfolded enumerate_endpoints_flat] x
    proof (rule for_each_establish)
      fix t t'
      assume "(case (aifc, ep) of (aifc, ep) \<Rightarrow> install_endpoint aifc ep) t = Inr t'"
      then have "install_endpoint aifc ep t = Inr t'" by simp
      from install_out [OF this ep(2) False]
      show "out_endpoints t' ?s \<noteq> None \<and> out_queues t' ?s \<noteq> Indeterminate" by simp
    next
      fix y t t'
      assume "(case y of (aifc, ep) \<Rightarrow> install_endpoint aifc ep) t = Inr t'"
        and "out_endpoints t ?s \<noteq> None \<and> out_queues t ?s \<noteq> Indeterminate"
      then show "out_endpoints t' ?s \<noteq> None \<and> out_queues t' ?s \<noteq> Indeterminate"
        using install_in_monotone(2) [of "fst y" "snd y" t t' ?s] by (cases y) simp
    qed
    with False show ?thesis by simp
  qed
qed

lemma enumerate_logged:
  assumes run: "enumerate_endpoints cfg m = Inr m1"
      and ep: "ep \<in> set (endpoints_of cfg)" "\<not> relayed ep"
  shows "Log_isochronous (bEndpointAddress (ep_descriptor ep)) \<in> set (trace m1)"
proof -
  from ep(1) obtain aifc where x: "(aifc, ep) \<in> set (configuration_endpoints cfg)"
    by (auto simp: endpoints_of_def)
  show ?thesis
    using run [unfolded enumerate_endpoints_flat] x
  proof (rule for_each_establish)
    fix t t'
    assume "(case (aifc, ep) of (aifc, ep) \<Rightarrow> install_endpoint aifc ep) t = Inr t'"
    then show "Log_isochronous (bEndpointAddress (ep_descriptor ep)) \<in> set (trace t')"
      using install_isochronous [OF ep(2), of aifc t] by (auto simp: emit_def)
  next
    fix y t t'
    assume "(case y of (aifc, ep) \<Rightarrow> install_endpoint aifc ep) t = Inr t'"
      and "Log_isochronous (bEndpointAddress (ep_descriptor ep)) \<in> set (trace t)"
    then show "Log_isochronous (bEndpointAddress (ep_descriptor ep)) \<in> set (trace t')"
      using install_in_monotone(5) [of "fst y" "snd y" t t'] by (cases y) auto
  qed
qed

lemma enumerate_monotone:
  assumes "enumerate_endpoints cfg m = Inr m1"
  shows "(in_endpoints m s \<noteq> None \<longrightarrow> in_endpoints m1 s \<noteq> None) \<and>
         (out_endpoints m s \<noteq> None \<longrightarrow> out_endpoints m1 s \<noteq> None)"
  using assms unfolding enumerate_endpoints_flat
proof (rule for_each_invariant)
  show "(in_endpoints m s \<noteq> None \<longrightarrow> in_endpoints m s \<noteq> None) \<and>
        (out_endpoints m s \<noteq> None \<longrightarrow> out_endpoints m s \<noteq> None)" by simp
next
  fix x t t'
  assume "(in_endpoints m s \<noteq> None \<longrightarrow> in_endpoints t s \<noteq> None) \<and>
        (out_endpoints m s \<noteq> None \<longrightarrow> out_endpoints t s \<noteq> None)"
    and "(case x of (aifc, ep) \<Rightarrow> install_endpoint aifc ep) t = Inr t'"
  then show "(in_endpoints m s \<noteq> None \<longrightarrow> in_endpoints t' s \<noteq> None) \<and>
        (out_endpoints m s \<noteq> None \<longrightarrow> out_endpoints t' s \<noteq> None)"
    using install_in_monotone(3,4) [of "fst x" "snd x" t t' s] by (cases x) auto
qed

lemma enumerate_untouched_in:
  assumes "enumerate_endpoints cfg m = Inr m1"
      and "\<forall>ep \<in> set (endpoints_of cfg).
             relayed ep \<and> is_in (ep_descriptor ep) \<longrightarrow> slot_of (ep_descriptor ep) \<noteq> s"
  shows "in_endpoints m1 s = in_endpoints m s \<and> in_queues m1 s = in_queues m s"
  using assms(1) unfolding enumerate_endpoints_flat
proof (rule for_each_invariant)
  show "in_endpoints m s = in_endpoints m s \<and> in_queues m s = in_queues m s" by simp
next
  fix x t t'
  assume x: "x \<in> set (configuration_endpoints cfg)"
    and inv: "in_endpoints t s = in_endpoints m s \<and> in_queues t s = in_queues m s"
    and step: "(case x of (aifc, ep) \<Rightarrow> install_endpoint aifc ep) t = Inr t'"
  obtain aifc e where xe: "x = (aifc, e)" by (cases x)
  from x xe have mem: "e \<in> set (endpoints_of cfg)" by (force simp: endpoints_of_def)
  from step xe have "install_endpoint aifc e t = Inr t'" by simp
  then show "in_endpoints t' s = in_endpoints m s \<and> in_queues t' s = in_queues m s"
    using inv mem assms(2) by (cases rule: install_cases) (auto simp: emit_def)
qed

lemma enumerate_untouched_out:
  assumes "enumerate_endpoints cfg m = Inr m1"
      and "\<forall>ep \<in> set (endpoints_of cfg).
             relayed ep \<and> \<not> is_in (ep_descriptor ep) \<longrightarrow> slot_of (ep_descriptor ep) \<noteq> s"
  shows "out_endpoints m1 s = out_endpoints m s \<and> out_queues m1 s = out_queues m s"
  using assms(1) unfolding enumerate_endpoints_flat
proof (rule for_each_invariant)
  show "out_endpoints m s = out_endpoints m s \<and> out_queues m s = out_queues m s" by simp
next
  fix x t t'
  assume x: "x \<in> set (configuration_endpoints cfg)"
    and inv: "out_endpoints t s = out_endpoints m s \<and> out_queues t s = out_queues m s"
    and step: "(case x of (aifc, ep) \<Rightarrow> install_endpoint aifc ep) t = Inr t'"
  obtain aifc e where xe: "x = (aifc, e)" by (cases x)
  from x xe have mem: "e \<in> set (endpoints_of cfg)" by (force simp: endpoints_of_def)
  from step xe have "install_endpoint aifc e t = Inr t'" by simp
  then show "out_endpoints t' s = out_endpoints m s \<and> out_queues t' s = out_queues m s"
    using inv mem assms(2) by (cases rule: install_cases) (auto simp: emit_def)
qed

subsection \<open>The construction of the relays\<close>

lemma constructed_idem:
  "constructed_reader p e q (constructed_reader p e q r) = constructed_reader p e q r"
  "constructed_writer p e q (constructed_writer p e q w) = constructed_writer p e q w"
  by (simp_all add: constructed_reader_def constructed_writer_def split: option.splits cell.splits)

lemma construct_relays_step:
  assumes "construct_relays i m = Inr m'"
  shows "endpoint_tables m' = endpoint_tables m" "thread_tables m' = thread_tables m"
    "setup_of m' = setup_of m" "trace m' = trace m"
    "in_readers m' = (in_readers m)
       (i := constructed_reader Device_proxy (in_endpoints m i) (in_queues m i) (in_readers m i))"
    "in_writers m' = (in_writers m)
       (i := constructed_writer Host_proxy (in_endpoints m i) (in_queues m i) (in_writers m i))"
    "out_readers m' = (out_readers m)
       (i := constructed_reader Host_proxy (out_endpoints m i) (out_queues m i) (out_readers m i))"
    "out_writers m' = (out_writers m)
       (i := constructed_writer Device_proxy (out_endpoints m i) (out_queues m i) (out_writers m i))"
    "in_endpoints m i \<noteq> None \<longrightarrow> in_queues m i \<noteq> Indeterminate"
    "out_endpoints m i \<noteq> None \<longrightarrow> out_queues m i \<noteq> Indeterminate"
  using assms
  by (auto simp: construct_relays_def and_then_def endpoint_tables_def thread_tables_def
        setup_of_def constructed_reader_def constructed_writer_def
      split: option.splits cell.splits sum.splits)


lemma construct_relays_loop:
  "for_each construct_relays xs m = Inr m' \<Longrightarrow>
   endpoint_tables m' = endpoint_tables m \<and> thread_tables m' = thread_tables m \<and>
   setup_of m' = setup_of m \<and> trace m' = trace m \<and>
   in_readers m' = (\<lambda>j. if j \<in> set xs
      then constructed_reader Device_proxy (in_endpoints m j) (in_queues m j) (in_readers m j)
      else in_readers m j) \<and>
   in_writers m' = (\<lambda>j. if j \<in> set xs
      then constructed_writer Host_proxy (in_endpoints m j) (in_queues m j) (in_writers m j)
      else in_writers m j) \<and>
   out_readers m' = (\<lambda>j. if j \<in> set xs
      then constructed_reader Host_proxy (out_endpoints m j) (out_queues m j) (out_readers m j)
      else out_readers m j) \<and>
   out_writers m' = (\<lambda>j. if j \<in> set xs
      then constructed_writer Device_proxy (out_endpoints m j) (out_queues m j) (out_writers m j)
      else out_writers m j) \<and>
   (\<forall>j \<in> set xs. (in_endpoints m j \<noteq> None \<longrightarrow> in_queues m j \<noteq> Indeterminate) \<and>
                  (out_endpoints m j \<noteq> None \<longrightarrow> out_queues m j \<noteq> Indeterminate))"
proof (induction xs arbitrary: m)
  case Nil
  then show ?case by simp
next
  case (Cons x xs)
  from for_each_Cons_Inr [OF Cons.prems] obtain s where
    s: "construct_relays x m = Inr s" "for_each construct_relays xs s = Inr m'" by blast
  note step = construct_relays_step [OF s(1)]
  from step(1) have tabs: "in_endpoints s = in_endpoints m" "in_queues s = in_queues m"
    "out_endpoints s = out_endpoints m" "out_queues s = out_queues m"
    by (simp_all add: endpoint_tables_def)
  note ih = Cons.IH [OF s(2), unfolded tabs]
  have "in_readers m' = (\<lambda>j. if j \<in> set (x # xs)
      then constructed_reader Device_proxy (in_endpoints m j) (in_queues m j) (in_readers m j)
      else in_readers m j)"
    using ih step(5) by (auto simp: fun_eq_iff constructed_idem)
  moreover have "in_writers m' = (\<lambda>j. if j \<in> set (x # xs)
      then constructed_writer Host_proxy (in_endpoints m j) (in_queues m j) (in_writers m j)
      else in_writers m j)"
    using ih step(6) by (auto simp: fun_eq_iff constructed_idem)
  moreover have "out_readers m' = (\<lambda>j. if j \<in> set (x # xs)
      then constructed_reader Host_proxy (out_endpoints m j) (out_queues m j) (out_readers m j)
      else out_readers m j)"
    using ih step(7) by (auto simp: fun_eq_iff constructed_idem)
  moreover have "out_writers m' = (\<lambda>j. if j \<in> set (x # xs)
      then constructed_writer Device_proxy (out_endpoints m j) (out_queues m j) (out_writers m j)
      else out_writers m j)"
    using ih step(8) by (auto simp: fun_eq_iff constructed_idem)
  moreover have "endpoint_tables m' = endpoint_tables m" "thread_tables m' = thread_tables m"
    "setup_of m' = setup_of m" "trace m' = trace m"
    using ih step(1-4) by simp_all
  moreover have "\<forall>j \<in> set (x # xs). (in_endpoints m j \<noteq> None \<longrightarrow> in_queues m j \<noteq> Indeterminate) \<and>
                  (out_endpoints m j \<noteq> None \<longrightarrow> out_queues m j \<noteq> Indeterminate)"
    using ih step(9,10) by simp
  ultimately show ?case by blast
qed

subsection \<open>The walks over the filters and the injectors\<close>

lemma same_binding_refl [simp]: "same_binding a a"
  by (simp add: same_binding_def split: option.splits)

lemma same_binding_trans: "same_binding a b \<Longrightarrow> same_binding b c \<Longrightarrow> same_binding a c"
  by (auto simp: same_binding_def split: option.splits)

lemma same_binding_add_filter [simp]: "same_binding (Some w) (Some (writer_add_filter f w))"
  by (simp add: same_binding_def writer_add_filter_def)

lemma rechained_refl [simp]: "rechained m m"
  by (simp add: rechained_def)

lemma rechained_trans: "rechained a b \<Longrightarrow> rechained b c \<Longrightarrow> rechained a c"
  unfolding rechained_def using same_binding_trans by metis

lemma rechained_in_writer:
  "in_writers m j = Some w \<Longrightarrow>
   rechained m (m\<lparr>in_writers := (in_writers m)(j \<mapsto> writer_add_filter f w)\<rparr>)"
  by (simp add: rechained_def endpoint_tables_def thread_tables_def setup_of_def)

lemma rechained_out_writer:
  "out_writers m j = Some w \<Longrightarrow>
   rechained m (m\<lparr>out_writers := (out_writers m)(j \<mapsto> writer_add_filter f w)\<rparr>)"
  by (simp add: rechained_def endpoint_tables_def thread_tables_def setup_of_def)

lemma rechained_for_each:
  assumes "for_each body xs m = Inr m'"
      and "\<And>x s s'. x \<in> set xs \<Longrightarrow> body x s = Inr s' \<Longrightarrow> rechained s s'"
  shows "rechained m m'"
  using assms(1)
proof (rule for_each_invariant)
  show "rechained m m" by simp
next
  fix x s s'
  assume "x \<in> set xs" "rechained m s" "body x s = Inr s'"
  then show "rechained m s'" using assms(2) rechained_trans by blast
qed

lemma apply_filter_slot_rechained:
  assumes "apply_filter_slot f j m = Inr m'"
  shows "rechained m m'"
proof -
  from assms obtain m1 where
    1: "(case in_endpoints m j of
          None \<Rightarrow> Inr m
        | Some ep \<Rightarrow>
            if pf_endpoint f ep \<and> pf_interface f (ep_interface ep)
            then (case in_writers m j of
                    None \<Rightarrow> Inl Null_dereference
                  | Some w \<Rightarrow> Inr (m\<lparr>in_writers := (in_writers m)(j \<mapsto> writer_add_filter f w)\<rparr>))
            else Inr m) = Inr m1"
    and 2: "(case out_endpoints m1 j of
          None \<Rightarrow> Inr m1
        | Some ep \<Rightarrow>
            if pf_endpoint f ep \<and> pf_interface f (ep_interface ep)
            then (case out_writers m1 j of
                    None \<Rightarrow> Inl Null_dereference
                  | Some w \<Rightarrow>
                      Inr (m1\<lparr>out_writers := (out_writers m1)(j \<mapsto> writer_add_filter f w)\<rparr>))
            else Inr m1) = Inr m'"
    by (auto simp: apply_filter_slot_def and_then_def split: sum.splits)
  from 1 have "rechained m m1"
    by (auto split: option.splits if_splits intro: rechained_in_writer)
  moreover from 2 have "rechained m1 m'"
    by (auto split: option.splits if_splits intro: rechained_out_writer)
  ultimately show ?thesis by (rule rechained_trans)
qed

lemma guarded_walk_cases:
  assumes "and_then (block_read b i)
             (\<lambda>p. case p of None \<Rightarrow> Inl e | Some f \<Rightarrow> if c f then g f else Inr m) = Inr m'"
  shows "m' = m \<or> (\<exists>f. g f = Inr m')"
  using assms by (auto simp: and_then_def split: sum.splits option.splits if_splits)

lemma apply_filter_rechained:
  assumes "apply_filter d cfg i m = Inr m'"
  shows "rechained m m'"
proof -
  from assms [unfolded apply_filter_def]
  have "m' = m \<or> (\<exists>f. for_each (apply_filter_slot f) [1..<16] m = Inr m')"
    by (rule guarded_walk_cases)
  then show ?thesis
  proof (elim disjE exE)
    assume "m' = m"
    then show ?thesis by simp
  next
    fix f
    assume "for_each (apply_filter_slot f) [1..<16] m = Inr m'"
    then show ?thesis by (rule rechained_for_each) (rule apply_filter_slot_rechained)
  qed
qed

lemma filter_walk_rechained:
  "for_each (apply_filter d cfg) xs m = Inr m' \<Longrightarrow> rechained m m'"
  by (erule rechained_for_each) (rule apply_filter_rechained)

lemma for_each_unchanged:
  assumes "for_each body xs m = Inr m'"
      and "\<And>x s s'. x \<in> set xs \<Longrightarrow> body x s = Inr s' \<Longrightarrow> s' = s"
  shows "m' = m"
  using assms(1)
proof (rule for_each_invariant)
  show "m = m" by simp
next
  fix x s s'
  assume "x \<in> set xs" "s = m" "body x s = Inr s'"
  then show "s' = m" using assms(2) by blast
qed

lemma apply_injector_slot_unchanged: "apply_injector_slot injector j m = Inr m' \<Longrightarrow> m' = m"
  by (auto simp: apply_injector_slot_def Let_def split: option.splits)

lemma apply_injector_unchanged:
  assumes "apply_injector d cfg i m = Inr m'"
  shows "m' = m"
proof -
  from assms [unfolded apply_injector_def]
  have "m' = m \<or> (\<exists>f. for_each (apply_injector_slot f) [1..<16] m = Inr m')"
    by (rule guarded_walk_cases)
  then show ?thesis
  proof (elim disjE exE)
    assume "m' = m"
    then show ?thesis .
  next
    fix f
    assume "for_each (apply_injector_slot f) [1..<16] m = Inr m'"
    then show ?thesis by (rule for_each_unchanged) (rule apply_injector_slot_unchanged)
  qed
qed

lemma injector_walk_unchanged:
  "for_each (apply_injector d cfg) xs m = Inr m' \<Longrightarrow> m' = m"
  by (erule for_each_unchanged) (rule apply_injector_unchanged)

subsection \<open>The phases of start_data_relaying\<close>

lemma and_thenE:
  assumes "and_then r f = Inr y"
  obtains x where "r = Inr x" "f x = Inr y"
  using assms by (cases r) (simp_all add: and_then_def)

lemma fabric_kept_refl [simp]: "fabric_kept m m"
  by (simp add: fabric_kept_def)

lemma fabric_kept_trans: "fabric_kept a b \<Longrightarrow> fabric_kept b c \<Longrightarrow> fabric_kept a c"
  using quiet_trans by (auto simp: fabric_kept_def)

lemma fabric_kept_for_each:
  assumes "for_each body xs m = Inr m'"
      and "\<And>x s s'. x \<in> set xs \<Longrightarrow> body x s = Inr s' \<Longrightarrow> fabric_kept s s'"
  shows "fabric_kept m m'"
  using assms(1)
proof (rule for_each_invariant)
  show "fabric_kept m m" by simp
next
  fix x s s'
  assume "x \<in> set xs" "fabric_kept m s" "body x s = Inr s'"
  then show "fabric_kept m s'" using assms(2) fabric_kept_trans by blast
qed

lemma fabric_kept_proxy_call:
  assumes "proxy_call p c m = Inr m'" and "\<not> is_SetConfig (Proxy_call p c)"
  shows "fabric_kept m m'"
  using proxy_call_tables [OF assms(1)] quiet_proxy_call [OF assms]
  by (simp add: fabric_kept_def)

lemma claim_interfaces_kept: "claim_interfaces cfg m = Inr m' \<Longrightarrow> fabric_kept m m'"
  unfolding claim_interfaces_def
  by (erule fabric_kept_for_each) (auto intro: fabric_kept_proxy_call simp: is_SetConfig_def)

lemma fabric_kept_thread_start:
  "fabric_kept m (emit (Thread_start t) (m\<lparr>in_readerThreads := a\<rparr>))"
  "fabric_kept m (emit (Thread_start t) (m\<lparr>in_writerThreads := a\<rparr>))"
  "fabric_kept m (emit (Thread_start t) (m\<lparr>out_readerThreads := a\<rparr>))"
  "fabric_kept m (emit (Thread_start t) (m\<lparr>out_writerThreads := a\<rparr>))"
  by (simp_all add: fabric_kept_def quiet_def emit_def endpoint_tables_def relay_tables_def
        setup_of_def is_SetConfig_def)

lemma start_thread_kept:
  "start_in_reader i m = Inr m' \<Longrightarrow> fabric_kept m m'"
  "start_in_writer i m = Inr m' \<Longrightarrow> fabric_kept m m'"
  "start_out_reader i m = Inr m' \<Longrightarrow> fabric_kept m m'"
  "start_out_writer i m = Inr m' \<Longrightarrow> fabric_kept m m'"
  by (auto simp: start_in_reader_def start_in_writer_def start_out_reader_def
        start_out_writer_def fabric_kept_thread_start split: option.splits if_splits)

lemma start_threads_kept:
  assumes "start_threads i m = Inr m'"
  shows "fabric_kept m m'"
proof -
  from assms [unfolded start_threads_def] obtain m1 m2 m3 where
    s: "start_in_reader i m = Inr m1" "start_in_writer i m1 = Inr m2"
    "start_out_reader i m2 = Inr m3" "start_out_writer i m3 = Inr m'"
    by (elim and_thenE)
  show ?thesis
    by (rule fabric_kept_trans [OF start_thread_kept(1) [OF s(1)]],
        rule fabric_kept_trans [OF start_thread_kept(2) [OF s(2)]],
        rule fabric_kept_trans [OF start_thread_kept(3) [OF s(3)]],
        rule start_thread_kept(4) [OF s(4)])
qed

lemma rechained_quiet: "rechained m m' \<Longrightarrow> quiet m m'"
  by (simp add: rechained_def quiet_def)

lemma start_data_relaying_phases:
  assumes "start_data_relaying m = Inr m'"
  obtains d cfg m1 m2 m3 where
    "device m = Some d" "get_active_configuration d = Some cfg"
    "enumerate_endpoints cfg m = Inr m1"
    "for_each construct_relays [1..<16] m1 = Inr m2"
    "rechained m2 m3" "fabric_kept m3 m'"
proof -
  from assms obtain d where d: "device m = Some d"
    by (cases "device m") (simp_all add: start_data_relaying_def)
  from assms d obtain cfg where cfg: "get_active_configuration d = Some cfg"
    by (cases "get_active_configuration d") (simp_all add: start_data_relaying_def)
  from assms d cfg have
    "and_then (enumerate_endpoints cfg m) (\<lambda>m1.
       and_then (for_each construct_relays [1..<16] m1) (\<lambda>m2.
       and_then (for_each (apply_filter d cfg) [0..<unat (filterCount m2)] m2) (\<lambda>m3.
       and_then (for_each (apply_injector d cfg) [0..<unat (injectorCount m3)] m3)
                 (\<lambda>m4.
       and_then (claim_interfaces cfg m4) (\<lambda>m5.
       for_each start_threads [1..<16] m5))))) = Inr m'"
    unfolding start_data_relaying_def by (simp only: option.case)
  then obtain m1 m2 m3 m4 m5 where
    1: "enumerate_endpoints cfg m = Inr m1"
    and 2: "for_each construct_relays [1..<16] m1 = Inr m2"
    and 3: "for_each (apply_filter d cfg) [0..<unat (filterCount m2)] m2 = Inr m3"
    and 4: "for_each (apply_injector d cfg) [0..<unat (injectorCount m3)] m3 = Inr m4"
    and 5: "claim_interfaces cfg m4 = Inr m5"
    and 6: "for_each start_threads [1..<16] m5 = Inr m'"
    by (elim and_thenE)
  from 3 have r: "rechained m2 m3" by (rule filter_walk_rechained)
  from 4 have "m4 = m3" by (rule injector_walk_unchanged)
  moreover from 5 have "fabric_kept m4 m5" by (rule claim_interfaces_kept)
  moreover from 6 have "fabric_kept m5 m'"
    by (rule fabric_kept_for_each) (rule start_threads_kept)
  ultimately have "fabric_kept m3 m'" using fabric_kept_trans by blast
  with d cfg 1 2 r show ?thesis by (rule that)
qed

lemma upt_1_16: "[Suc 0..<16] = [1,2,3,4,5,6,7,8,9,10,11,12,13,14,15::nat]"
  by (simp add: upt_rec)

lemmas run_data = run upt_1_16 start_data_relaying_def enumerate_endpoints_def install_endpoint_def
  construct_relays_def apply_filter_def apply_filter_slot_def apply_injector_def
  apply_injector_slot_def claim_interfaces_def start_threads_def start_in_reader_def
  start_in_writer_def start_out_reader_def start_out_writer_def setConfig_def
  proxies_setConfig_def get_active_configuration_def get_configuration_def
  set_active_configuration_def bNumInterfaces_def is_isochronous_def is_in_def slot_of_def
  new_RelayReader_def new_RelayWriter_def
  sample_endpoint_def sample_configuration_def sample_device_def plugged_manager_def
  configured_manager_def

subsection \<open>Pairing after start_data_relaying\<close>

lemma constructed_paired:
  "e = None \<longrightarrow> r = None \<and> w = None \<Longrightarrow> e \<noteq> None \<longrightarrow> q \<noteq> Indeterminate \<Longrightarrow>
   slot_paired source sink e q (constructed_reader source e q r) (constructed_writer sink e q w)"
  by (auto simp: slot_paired_def constructed_reader_def constructed_writer_def
        new_RelayWriter_def split: option.splits cell.splits)

lemma slot_paired_same_binding:
  "slot_paired source sink e q r w \<Longrightarrow> same_binding w w' \<Longrightarrow> slot_paired source sink e q r w'"
  by (auto simp: slot_paired_def same_binding_def split: option.splits cell.splits)

lemma tables_fields:
  "endpoint_tables a = endpoint_tables b \<Longrightarrow>
     in_endpoints a = in_endpoints b \<and> in_queues a = in_queues b \<and>
     out_endpoints a = out_endpoints b \<and> out_queues a = out_queues b \<and>
     queues_allocated a = queues_allocated b"
  "relay_tables a = relay_tables b \<Longrightarrow>
     in_readers a = in_readers b \<and> in_writers a = in_writers b \<and>
     out_readers a = out_readers b \<and> out_writers a = out_writers b"
  by (simp_all add: endpoint_tables_def relay_tables_def)

lemma pairing_after_start:
  assumes run: "start_data_relaying m = Inr m'"
      and pre: "\<forall>i \<in> {1..<16}.
                 (in_endpoints m i = None \<longrightarrow> in_readers m i = None \<and> in_writers m i = None) \<and>
                 (out_endpoints m i = None \<longrightarrow> out_readers m i = None \<and> out_writers m i = None)"
      and i: "i \<in> {1..<16}"
  shows "in_paired m' i \<and> out_paired m' i"
proof -
  from run obtain d cfg m1 m2 m3 where
    1: "enumerate_endpoints cfg m = Inr m1"
    and 2: "for_each construct_relays [1..<16] m1 = Inr m2"
    and 3: "rechained m2 m3" and 4: "fabric_kept m3 m'"
    by (rule start_data_relaying_phases)
  from i have mem: "i \<in> set [1..<16]" by simp
  note f1 = tables_fields(2) [OF conjunct1 [OF enumerate_frame [OF 1]]]
  note mono = enumerate_monotone [OF 1, of i]
  note loop = construct_relays_loop [OF 2]
  note t2 = tables_fields(1) [OF conjunct1 [OF loop]]
  have none_in: "in_endpoints m1 i = None \<longrightarrow> in_readers m1 i = None \<and> in_writers m1 i = None"
    using mono pre i f1 by auto
  have none_out: "out_endpoints m1 i = None \<longrightarrow> out_readers m1 i = None \<and> out_writers m1 i = None"
    using mono pre i f1 by auto
  have q_in: "in_endpoints m1 i \<noteq> None \<longrightarrow> in_queues m1 i \<noteq> Indeterminate"
    and q_out: "out_endpoints m1 i \<noteq> None \<longrightarrow> out_queues m1 i \<noteq> Indeterminate"
    using loop mem by blast+
  have r2: "in_readers m2 i =
        constructed_reader Device_proxy (in_endpoints m1 i) (in_queues m1 i) (in_readers m1 i)"
      "in_writers m2 i =
        constructed_writer Host_proxy (in_endpoints m1 i) (in_queues m1 i) (in_writers m1 i)"
      "out_readers m2 i =
        constructed_reader Host_proxy (out_endpoints m1 i) (out_queues m1 i) (out_readers m1 i)"
      "out_writers m2 i =
        constructed_writer Device_proxy (out_endpoints m1 i) (out_queues m1 i) (out_writers m1 i)"
    using loop mem by simp_all
  have p2: "in_paired m2 i" "out_paired m2 i"
    unfolding in_paired_def out_paired_def r2 using t2
    by (simp_all add: constructed_paired [OF none_in q_in] constructed_paired [OF none_out q_out])
  from 3 have t3: "endpoint_tables m3 = endpoint_tables m2" "in_readers m3 = in_readers m2"
    "out_readers m3 = out_readers m2" "same_binding (in_writers m2 i) (in_writers m3 i)"
    "same_binding (out_writers m2 i) (out_writers m3 i)"
    by (simp_all add: rechained_def)
  have p3: "in_paired m3 i" "out_paired m3 i"
    using p2 t3(4,5) tables_fields(1) [OF t3(1)] t3(2,3)
    unfolding in_paired_def out_paired_def
    by (auto intro: slot_paired_same_binding)
  from 4 have "endpoint_tables m' = endpoint_tables m3" "relay_tables m' = relay_tables m3"
    by (simp_all add: fabric_kept_def)
  from tables_fields(1) [OF this(1)] tables_fields(2) [OF this(2)] p3
  show ?thesis by (simp add: in_paired_def out_paired_def)
qed

text \<open>
  C9. After start_data_relaying has returned, every slot 1..15 is paired in each
  direction: a filled endpoint slot has a queue, a reader and a writer that share that
  queue, IN relays reading from the device proxy and writing to the host proxy, OUT relays
  reading from the host proxy and writing to the device proxy; an empty endpoint slot has
  neither reader nor writer. The hypothesis on the Manager before the call (no relay in a
  slot without endpoint) holds after construction and after every teardown, and the
  conclusion re-establishes it.
\<close>

theorem start_data_relaying_pairing:
  assumes "start_data_relaying m = Inr m'"
      and "\<forall>i \<in> {1..<16}.
             (in_endpoints m i = None \<longrightarrow> in_readers m i = None \<and> in_writers m i = None) \<and>
             (out_endpoints m i = None \<longrightarrow> out_readers m i = None \<and> out_writers m i = None)"
  shows "\<forall>i \<in> {1..<16}. in_paired m' i \<and> out_paired m' i"
  using pairing_after_start [OF assms] by blast

lemma start_data_relaying_sample:
  "\<exists>m'. start_data_relaying configured_manager = Inr m'"
  by (simp add: run_data Let_def cong: and_then_weak_cong)

theorem start_data_relaying_pairing_witness:
  "\<exists>m'. start_data_relaying configured_manager = Inr m' \<and>
     in_paired m' 1 \<and> out_paired m' 1 \<and> in_paired m' 2 \<and> out_paired m' 2 \<and>
     in_paired m' 3 \<and> out_paired m' 3"
proof -
  from start_data_relaying_sample obtain m' where
    run: "start_data_relaying configured_manager = Inr m'" by blast
  have pre: "\<forall>i \<in> {1..<16}.
             (in_endpoints configured_manager i = None \<longrightarrow>
                in_readers configured_manager i = None \<and> in_writers configured_manager i = None) \<and>
             (out_endpoints configured_manager i = None \<longrightarrow>
                out_readers configured_manager i = None \<and> out_writers configured_manager i = None)"
    by (simp add: configured_manager_def plugged_manager_def Manager_new_def)
  from start_data_relaying_pairing [OF run pre] run show ?thesis by auto
qed

subsection \<open>Isochronous endpoints\<close>

lemma start_data_relaying_quiet:
  assumes "start_data_relaying m = Inr m'"
  shows "quiet m m'"
proof -
  from assms obtain d cfg m1 m2 m3 where
    1: "enumerate_endpoints cfg m = Inr m1"
    and 2: "for_each construct_relays [1..<16] m1 = Inr m2"
    and 3: "rechained m2 m3" and 4: "fabric_kept m3 m'"
    by (rule start_data_relaying_phases)
  from enumerate_frame [OF 1] have "quiet m m1" by simp
  moreover from construct_relays_loop [OF 2] have "quiet m1 m2" by (simp add: quiet_def)
  moreover from 3 have "quiet m2 m3" by (rule rechained_quiet)
  moreover from 4 have "quiet m3 m'" by (simp add: fabric_kept_def)
  ultimately show ?thesis using quiet_trans by blast
qed

lemma quiet_trace_subset: "quiet m m' \<Longrightarrow> set (trace m) \<subseteq> set (trace m')"
  by (auto simp: quiet_def)

lemma endpoint_tables_after_start:
  assumes run: "start_data_relaying m = Inr m'"
      and dev: "device m = Some d" "get_active_configuration d = Some cfg"
  shows "\<exists>m1. enumerate_endpoints cfg m = Inr m1 \<and> endpoint_tables m' = endpoint_tables m1 \<and>
           quiet m1 m'"
proof -
  from run obtain d' cfg' m1 m2 m3 where
    0: "device m = Some d'" "get_active_configuration d' = Some cfg'"
    and 1: "enumerate_endpoints cfg' m = Inr m1"
    and 2: "for_each construct_relays [1..<16] m1 = Inr m2"
    and 3: "rechained m2 m3" and 4: "fabric_kept m3 m'"
    by (rule start_data_relaying_phases)
  from 0 dev have same: "cfg' = cfg" by simp
  from construct_relays_loop [OF 2] have a: "endpoint_tables m2 = endpoint_tables m1" "quiet m1 m2"
    by (simp_all add: quiet_def)
  from 3 have b: "endpoint_tables m3 = endpoint_tables m2" "quiet m2 m3"
    by (simp_all add: rechained_def rechained_quiet)
  from 4 have c: "endpoint_tables m' = endpoint_tables m3" "quiet m3 m'"
    by (simp_all add: fabric_kept_def)
  have "quiet m1 m'" using a(2) b(2) c(2) quiet_trans by blast
  with 1 same a(1) b(1) c(1) show ?thesis by simp
qed

lemma paired_relays:
  assumes "slot_paired source sink e q r w"
  shows "(r = None \<longleftrightarrow> e = None) \<and> (w = None \<longleftrightarrow> e = None) \<and>
         (\<forall>x. r = Some x \<longrightarrow> e = Some (rd_endpoint x)) \<and>
         (\<forall>x. w = Some x \<longrightarrow> e = Some (wr_endpoint x)) \<and> (e \<noteq> None \<longrightarrow> q \<noteq> Indeterminate)"
  using assms
  by (auto simp: slot_paired_def new_RelayReader_def split: option.splits cell.splits)

lemma start_in_reader_step:
  assumes "start_in_reader i s = Inr s'"
  shows "relay_tables s' = relay_tables s" "endpoint_tables s' = endpoint_tables s"
    "in_readerThreads s' = (in_readerThreads s)(i := in_readerThreads s i \<or> in_readers s i \<noteq> None)"
    "in_writerThreads s' = in_writerThreads s" "out_readerThreads s' = out_readerThreads s"
    "out_writerThreads s' = out_writerThreads s"
    "trace s' = trace s @ (if in_readers s i \<noteq> None then [Thread_start (In_reader i)] else [])"
  using assms
  by (auto simp: start_in_reader_def emit_def relay_tables_def endpoint_tables_def
      split: option.splits if_splits)

lemma start_in_writer_step:
  assumes "start_in_writer i s = Inr s'"
  shows "relay_tables s' = relay_tables s" "endpoint_tables s' = endpoint_tables s"
    "in_writerThreads s' = (in_writerThreads s)(i := in_writerThreads s i \<or> in_writers s i \<noteq> None)"
    "in_readerThreads s' = in_readerThreads s" "out_readerThreads s' = out_readerThreads s"
    "out_writerThreads s' = out_writerThreads s"
    "trace s' = trace s @ (if in_writers s i \<noteq> None then [Thread_start (In_writer i)] else [])"
  using assms
  by (auto simp: start_in_writer_def emit_def relay_tables_def endpoint_tables_def
      split: option.splits if_splits)

lemma start_out_reader_step:
  assumes "start_out_reader i s = Inr s'"
  shows "relay_tables s' = relay_tables s" "endpoint_tables s' = endpoint_tables s"
    "out_readerThreads s' = (out_readerThreads s)(i := out_readerThreads s i \<or> out_readers s i \<noteq> None)"
    "in_readerThreads s' = in_readerThreads s" "in_writerThreads s' = in_writerThreads s"
    "out_writerThreads s' = out_writerThreads s"
    "trace s' = trace s @ (if out_readers s i \<noteq> None then [Thread_start (Out_reader i)] else [])"
  using assms
  by (auto simp: start_out_reader_def emit_def relay_tables_def endpoint_tables_def
      split: option.splits if_splits)

lemma start_out_writer_step:
  assumes "start_out_writer i s = Inr s'"
  shows "relay_tables s' = relay_tables s" "endpoint_tables s' = endpoint_tables s"
    "out_writerThreads s' = (out_writerThreads s)(i := out_writerThreads s i \<or> out_writers s i \<noteq> None)"
    "in_readerThreads s' = in_readerThreads s" "in_writerThreads s' = in_writerThreads s"
    "out_readerThreads s' = out_readerThreads s"
    "trace s' = trace s @ (if out_writers s i \<noteq> None then [Thread_start (Out_writer i)] else [])"
  using assms
  by (auto simp: start_out_writer_def emit_def relay_tables_def endpoint_tables_def
      split: option.splits if_splits)

lemma start_threads_step:
  assumes "start_threads i s = Inr s'"
  shows "relay_tables s' = relay_tables s"
    "in_readerThreads s' = (in_readerThreads s)(i := in_readerThreads s i \<or> in_readers s i \<noteq> None)"
    "in_writerThreads s' = (in_writerThreads s)(i := in_writerThreads s i \<or> in_writers s i \<noteq> None)"
    "out_readerThreads s' = (out_readerThreads s)(i := out_readerThreads s i \<or> out_readers s i \<noteq> None)"
    "out_writerThreads s' = (out_writerThreads s)(i := out_writerThreads s i \<or> out_writers s i \<noteq> None)"
    "trace s' = trace s @ started s i"
proof -
  from assms [unfolded start_threads_def] obtain s1 s2 s3 where
    s: "start_in_reader i s = Inr s1" "start_in_writer i s1 = Inr s2"
    "start_out_reader i s2 = Inr s3" "start_out_writer i s3 = Inr s'"
    by (elim and_thenE)
  note a = start_in_reader_step [OF s(1)]
  note b = start_in_writer_step [OF s(2)]
  note c = start_out_reader_step [OF s(3)]
  note d = start_out_writer_step [OF s(4)]
  note r1 = tables_fields(2) [OF a(1)]
  note r2 = tables_fields(2) [OF b(1)]
  note r3 = tables_fields(2) [OF c(1)]
  show "relay_tables s' = relay_tables s" using a(1) b(1) c(1) d(1) by simp
  show "in_readerThreads s' = (in_readerThreads s)(i := in_readerThreads s i \<or> in_readers s i \<noteq> None)"
    using a(3) b(4) c(4) d(4) by simp
  show "in_writerThreads s' = (in_writerThreads s)(i := in_writerThreads s i \<or> in_writers s i \<noteq> None)"
    using a(4) b(3) c(5) d(5) r1 by simp
  show "out_readerThreads s' = (out_readerThreads s)(i := out_readerThreads s i \<or> out_readers s i \<noteq> None)"
    using a(5) b(5) c(3) d(6) r1 r2 by simp
  show "out_writerThreads s' = (out_writerThreads s)(i := out_writerThreads s i \<or> out_writers s i \<noteq> None)"
    using a(6) b(6) c(6) d(3) r1 r2 r3 by simp
  show "trace s' = trace s @ started s i"
    using a(7) b(7) c(7) d(7) r1 r2 r3 by (simp add: started_def)
qed

lemma started_cong: "relay_tables a = relay_tables b \<Longrightarrow> started a = started b"
  by (rule ext) (simp add: started_def relay_tables_def)

lemma start_threads_loop:
  "for_each start_threads xs s = Inr s' \<Longrightarrow>
   relay_tables s' = relay_tables s \<and>
   (\<forall>i. in_readerThreads s' i = (in_readerThreads s i \<or> i \<in> set xs \<and> in_readers s i \<noteq> None)) \<and>
   (\<forall>i. in_writerThreads s' i = (in_writerThreads s i \<or> i \<in> set xs \<and> in_writers s i \<noteq> None)) \<and>
   (\<forall>i. out_readerThreads s' i = (out_readerThreads s i \<or> i \<in> set xs \<and> out_readers s i \<noteq> None)) \<and>
   (\<forall>i. out_writerThreads s' i = (out_writerThreads s i \<or> i \<in> set xs \<and> out_writers s i \<noteq> None)) \<and>
   trace s' = trace s @ concat (map (started s) xs)"
proof (induction xs arbitrary: s)
  case Nil
  then show ?case by simp
next
  case (Cons x xs)
  from for_each_Cons_Inr [OF Cons.prems] obtain s1 where
    s1: "start_threads x s = Inr s1" "for_each start_threads xs s1 = Inr s'" by blast
  note st = start_threads_step [OF s1(1)]
  note r = tables_fields(2) [OF st(1)]
  note ih = Cons.IH [OF s1(2)]
  have "relay_tables s' = relay_tables s" using ih st(1) by simp
  moreover have "\<forall>i. in_readerThreads s' i = (in_readerThreads s i \<or> i \<in> set (x # xs) \<and> in_readers s i \<noteq> None)"
    using ih st(2) r by auto
  moreover have "\<forall>i. in_writerThreads s' i = (in_writerThreads s i \<or> i \<in> set (x # xs) \<and> in_writers s i \<noteq> None)"
    using ih st(3) r by auto
  moreover have "\<forall>i. out_readerThreads s' i = (out_readerThreads s i \<or> i \<in> set (x # xs) \<and> out_readers s i \<noteq> None)"
    using ih st(4) r by auto
  moreover have "\<forall>i. out_writerThreads s' i = (out_writerThreads s i \<or> i \<in> set (x # xs) \<and> out_writers s i \<noteq> None)"
    using ih st(5) r by auto
  moreover have "trace s' = trace s @ concat (map (started s) (x # xs))"
    using ih st(6) started_cong [OF st(1)] by simp
  ultimately show ?case by blast
qed

lemma claim_interfaces_threads:
  assumes "claim_interfaces cfg m = Inr m'"
  shows "thread_tables m' = thread_tables m"
  using assms unfolding claim_interfaces_def
proof (rule for_each_invariant)
  show "thread_tables m = thread_tables m" by simp
next
  fix x s s'
  assume "thread_tables s = thread_tables m"
    and "proxy_call Device_proxy (Claim_interface x) s = Inr s'"
  then show "thread_tables s' = thread_tables m" using proxy_call_tables(3) by simp
qed

lemma start_data_relaying_thread_phase:
  assumes "start_data_relaying m = Inr m'"
  obtains m5 where "for_each start_threads [1..<16] m5 = Inr m'"
    "thread_tables m5 = thread_tables m"
proof -
  from assms obtain d where d: "device m = Some d"
    by (cases "device m") (simp_all add: start_data_relaying_def)
  from assms d obtain cfg where cfg: "get_active_configuration d = Some cfg"
    by (cases "get_active_configuration d") (simp_all add: start_data_relaying_def)
  from assms d cfg have
    "and_then (enumerate_endpoints cfg m) (\<lambda>m1.
       and_then (for_each construct_relays [1..<16] m1) (\<lambda>m2.
       and_then (for_each (apply_filter d cfg) [0..<unat (filterCount m2)] m2) (\<lambda>m3.
       and_then (for_each (apply_injector d cfg) [0..<unat (injectorCount m3)] m3)
                 (\<lambda>m4.
       and_then (claim_interfaces cfg m4) (\<lambda>m5.
       for_each start_threads [1..<16] m5))))) = Inr m'"
    unfolding start_data_relaying_def by (simp only: option.case)
  then obtain m1 m2 m3 m4 m5 where
    1: "enumerate_endpoints cfg m = Inr m1"
    and 2: "for_each construct_relays [1..<16] m1 = Inr m2"
    and 3: "for_each (apply_filter d cfg) [0..<unat (filterCount m2)] m2 = Inr m3"
    and 4: "for_each (apply_injector d cfg) [0..<unat (injectorCount m3)] m3 = Inr m4"
    and 5: "claim_interfaces cfg m4 = Inr m5"
    and 6: "for_each start_threads [1..<16] m5 = Inr m'"
    by (elim and_thenE)
  from enumerate_frame [OF 1] have "thread_tables m1 = thread_tables m" by simp
  moreover from construct_relays_loop [OF 2] have "thread_tables m2 = thread_tables m1" by simp
  moreover from filter_walk_rechained [OF 3] have "thread_tables m3 = thread_tables m2"
    by (simp add: rechained_def)
  moreover from 4 have "m4 = m3" by (rule injector_walk_unchanged)
  moreover from 5 have "thread_tables m5 = thread_tables m4" by (rule claim_interfaces_threads)
  ultimately have "thread_tables m5 = thread_tables m" by simp
  with 6 show ?thesis by (rule that)
qed

lemma threads_after_start:
  assumes run: "start_data_relaying m = Inr m'" and i: "i \<in> {1..<16}"
  shows "in_readerThreads m' i = (in_readerThreads m i \<or> in_readers m' i \<noteq> None)"
    "in_writerThreads m' i = (in_writerThreads m i \<or> in_writers m' i \<noteq> None)"
    "out_readerThreads m' i = (out_readerThreads m i \<or> out_readers m' i \<noteq> None)"
    "out_writerThreads m' i = (out_writerThreads m i \<or> out_writers m' i \<noteq> None)"
    "in_readers m' i \<noteq> None \<Longrightarrow> Thread_start (In_reader i) \<in> set (trace m')"
    "in_writers m' i \<noteq> None \<Longrightarrow> Thread_start (In_writer i) \<in> set (trace m')"
    "out_readers m' i \<noteq> None \<Longrightarrow> Thread_start (Out_reader i) \<in> set (trace m')"
    "out_writers m' i \<noteq> None \<Longrightarrow> Thread_start (Out_writer i) \<in> set (trace m')"
proof -
  from run obtain m5 where 6: "for_each start_threads [1..<16] m5 = Inr m'"
    and t: "thread_tables m5 = thread_tables m"
    by (rule start_data_relaying_thread_phase)
  note loop = start_threads_loop [OF 6]
  from loop have rt: "relay_tables m' = relay_tables m5" by simp
  note r = tables_fields(2) [OF rt]
  from t have th: "in_readerThreads m5 = in_readerThreads m" "in_writerThreads m5 = in_writerThreads m"
    "out_readerThreads m5 = out_readerThreads m" "out_writerThreads m5 = out_writerThreads m"
    by (simp_all add: thread_tables_def)
  from i have mem: "i \<in> set [1..<16]" by simp
  show "in_readerThreads m' i = (in_readerThreads m i \<or> in_readers m' i \<noteq> None)"
    using loop mem r th by simp
  show "in_writerThreads m' i = (in_writerThreads m i \<or> in_writers m' i \<noteq> None)"
    using loop mem r th by simp
  show "out_readerThreads m' i = (out_readerThreads m i \<or> out_readers m' i \<noteq> None)"
    using loop mem r th by simp
  show "out_writerThreads m' i = (out_writerThreads m i \<or> out_writers m' i \<noteq> None)"
    using loop mem r th by simp
  have tr: "set (started m5 i) \<subseteq> set (trace m')"
    using loop mem by auto
  have st: "started m5 i = started m' i" using started_cong [OF rt] by simp
  show "Thread_start (In_reader i) \<in> set (trace m')" if "in_readers m' i \<noteq> None"
    using tr that unfolding st by (auto simp: started_def)
  show "Thread_start (In_writer i) \<in> set (trace m')" if "in_writers m' i \<noteq> None"
    using tr that unfolding st by (auto simp: started_def)
  show "Thread_start (Out_reader i) \<in> set (trace m')" if "out_readers m' i \<noteq> None"
    using tr that unfolding st by (auto simp: started_def)
  show "Thread_start (Out_writer i) \<in> set (trace m')" if "out_writers m' i \<noteq> None"
    using tr that unfolding st by (auto simp: started_def)
qed

text \<open>
  C7 (as amended). Let start_data_relaying return on a Manager whose device model has the
  active configuration \<open>cfg\<close>, whose endpoint tables hold no isochronous endpoint and
  whose slots 1..15 hold no relay without an endpoint. Then for every isochronous endpoint
  \<open>ep\<close> of \<open>cfg\<close>: the endpoint is logged; no entry of the endpoint tables, no reader and
  no writer is for an isochronous endpoint; one queue is allocated per endpoint that is not
  isochronous and none for the others; and, unless an endpoint of \<open>cfg\<close> that is not
  isochronous has the direction and the number of \<open>ep\<close>, the slot of \<open>ep\<close> keeps its
  endpoint and queue entries and, when the number is in 1..15 and the slot was empty, has
  no reader, no writer and its two thread slots as before. Relaying proceeds for every
  other endpoint: each endpoint that is not isochronous, with a number in 1..15, has its
  slot filled with an endpoint, a queue, a reader and a writer, and the reader thread and
  the writer thread of the slot have been started and are joinable.
\<close>

theorem start_data_relaying_skips_isochronous:
  assumes run: "start_data_relaying m = Inr m'"
      and dev: "device m = Some d" "get_active_configuration d = Some cfg"
      and clean: "\<forall>i e. in_endpoints m i = Some e \<or> out_endpoints m i = Some e \<longrightarrow>
                   \<not> is_isochronous (ep_descriptor e)"
      and pre: "\<forall>i \<in> {1..<16}.
                 (in_endpoints m i = None \<longrightarrow> in_readers m i = None \<and> in_writers m i = None) \<and>
                 (out_endpoints m i = None \<longrightarrow> out_readers m i = None \<and> out_writers m i = None)"
      and ep: "ep \<in> set (endpoints_of cfg)" "is_isochronous (ep_descriptor ep)"
  shows "Log_isochronous (bEndpointAddress (ep_descriptor ep)) \<in> set (trace m') \<and>
         (\<forall>i e. in_endpoints m' i = Some e \<or> out_endpoints m' i = Some e \<longrightarrow>
            \<not> is_isochronous (ep_descriptor e)) \<and>
         (\<forall>i \<in> {1..<16}. \<forall>r w.
            (in_readers m' i = Some r \<or> out_readers m' i = Some r \<longrightarrow>
               \<not> is_isochronous (ep_descriptor (rd_endpoint r))) \<and>
            (in_writers m' i = Some w \<or> out_writers m' i = Some w \<longrightarrow>
               \<not> is_isochronous (ep_descriptor (wr_endpoint w)))) \<and>
         queues_allocated m' =
           queues_allocated m +
           length (filter (\<lambda>e. \<not> is_isochronous (ep_descriptor e)) (endpoints_of cfg)) \<and>
         ((\<forall>e \<in> set (endpoints_of cfg).
             \<not> is_isochronous (ep_descriptor e) \<and>
             is_in (ep_descriptor e) = is_in (ep_descriptor ep) \<longrightarrow>
             slot_of (ep_descriptor e) \<noteq> slot_of (ep_descriptor ep)) \<longrightarrow>
          (if is_in (ep_descriptor ep)
           then in_endpoints m' (slot_of (ep_descriptor ep)) =
                  in_endpoints m (slot_of (ep_descriptor ep)) \<and>
                in_queues m' (slot_of (ep_descriptor ep)) =
                  in_queues m (slot_of (ep_descriptor ep)) \<and>
                (slot_of (ep_descriptor ep) \<in> {1..<16} \<and>
                 in_endpoints m (slot_of (ep_descriptor ep)) = None \<longrightarrow>
                   in_readers m' (slot_of (ep_descriptor ep)) = None \<and>
                   in_writers m' (slot_of (ep_descriptor ep)) = None \<and>
                   in_readerThreads m' (slot_of (ep_descriptor ep)) =
                     in_readerThreads m (slot_of (ep_descriptor ep)) \<and>
                   in_writerThreads m' (slot_of (ep_descriptor ep)) =
                     in_writerThreads m (slot_of (ep_descriptor ep)))
           else out_endpoints m' (slot_of (ep_descriptor ep)) =
                  out_endpoints m (slot_of (ep_descriptor ep)) \<and>
                out_queues m' (slot_of (ep_descriptor ep)) =
                  out_queues m (slot_of (ep_descriptor ep)) \<and>
                (slot_of (ep_descriptor ep) \<in> {1..<16} \<and>
                 out_endpoints m (slot_of (ep_descriptor ep)) = None \<longrightarrow>
                   out_readers m' (slot_of (ep_descriptor ep)) = None \<and>
                   out_writers m' (slot_of (ep_descriptor ep)) = None \<and>
                   out_readerThreads m' (slot_of (ep_descriptor ep)) =
                     out_readerThreads m (slot_of (ep_descriptor ep)) \<and>
                   out_writerThreads m' (slot_of (ep_descriptor ep)) =
                     out_writerThreads m (slot_of (ep_descriptor ep))))) \<and>
         (\<forall>e \<in> set (endpoints_of cfg).
            \<not> is_isochronous (ep_descriptor e) \<and> slot_of (ep_descriptor e) \<in> {1..<16} \<longrightarrow>
            (if is_in (ep_descriptor e)
             then in_endpoints m' (slot_of (ep_descriptor e)) \<noteq> None \<and>
                  in_queues m' (slot_of (ep_descriptor e)) \<noteq> Indeterminate \<and>
                  in_readers m' (slot_of (ep_descriptor e)) \<noteq> None \<and>
                  in_writers m' (slot_of (ep_descriptor e)) \<noteq> None \<and>
                  in_readerThreads m' (slot_of (ep_descriptor e)) \<and>
                  in_writerThreads m' (slot_of (ep_descriptor e)) \<and>
                  Thread_start (In_reader (slot_of (ep_descriptor e))) \<in> set (trace m') \<and>
                  Thread_start (In_writer (slot_of (ep_descriptor e))) \<in> set (trace m')
             else out_endpoints m' (slot_of (ep_descriptor e)) \<noteq> None \<and>
                  out_queues m' (slot_of (ep_descriptor e)) \<noteq> Indeterminate \<and>
                  out_readers m' (slot_of (ep_descriptor e)) \<noteq> None \<and>
                  out_writers m' (slot_of (ep_descriptor e)) \<noteq> None \<and>
                  out_readerThreads m' (slot_of (ep_descriptor e)) \<and>
                  out_writerThreads m' (slot_of (ep_descriptor e)) \<and>
                  Thread_start (Out_reader (slot_of (ep_descriptor e))) \<in> set (trace m') \<and>
                  Thread_start (Out_writer (slot_of (ep_descriptor e))) \<in> set (trace m')))"
proof -
  from endpoint_tables_after_start [OF run dev] obtain m1 where
    1: "enumerate_endpoints cfg m = Inr m1" and t: "endpoint_tables m' = endpoint_tables m1"
    and q: "quiet m1 m'" by blast
  note tf = tables_fields(1) [OF t]
  note paired = pairing_after_start [OF run pre]
  have logged: "Log_isochronous (bEndpointAddress (ep_descriptor ep)) \<in> set (trace m')"
    using enumerate_logged [OF 1 ep(1)] ep(2) quiet_trace_subset [OF q]
    by (auto simp: relayed_def)
  have entries: "\<forall>i e. in_endpoints m' i = Some e \<or> out_endpoints m' i = Some e \<longrightarrow>
            \<not> is_isochronous (ep_descriptor e)"
    using enumerate_in_origin [OF 1] enumerate_out_origin [OF 1] clean tf
    by (simp add: relayed_def) blast
  have relays: "\<forall>i \<in> {1..<16}. \<forall>r w.
            (in_readers m' i = Some r \<or> out_readers m' i = Some r \<longrightarrow>
               \<not> is_isochronous (ep_descriptor (rd_endpoint r))) \<and>
            (in_writers m' i = Some w \<or> out_writers m' i = Some w \<longrightarrow>
               \<not> is_isochronous (ep_descriptor (wr_endpoint w)))"
  proof (intro ballI allI)
    fix i :: nat and r w
    assume i: "i \<in> {1..<16}"
    from paired [OF i] have
      a: "slot_paired Device_proxy Host_proxy (in_endpoints m' i) (in_queues m' i)
            (in_readers m' i) (in_writers m' i)"
      and b: "slot_paired Host_proxy Device_proxy (out_endpoints m' i) (out_queues m' i)
            (out_readers m' i) (out_writers m' i)"
      by (simp_all add: in_paired_def out_paired_def)
    from paired_relays [OF a] paired_relays [OF b] entries
    show "(in_readers m' i = Some r \<or> out_readers m' i = Some r \<longrightarrow>
               \<not> is_isochronous (ep_descriptor (rd_endpoint r))) \<and>
            (in_writers m' i = Some w \<or> out_writers m' i = Some w \<longrightarrow>
               \<not> is_isochronous (ep_descriptor (wr_endpoint w)))"
      by blast
  qed
  have count: "queues_allocated m' =
           queues_allocated m +
           length (filter (\<lambda>e. \<not> is_isochronous (ep_descriptor e)) (endpoints_of cfg))"
    using enumerate_queue_count [OF 1] tf by (simp add: relayed_def [abs_def])
  have untouched: "(\<forall>e \<in> set (endpoints_of cfg).
             \<not> is_isochronous (ep_descriptor e) \<and>
             is_in (ep_descriptor e) = is_in (ep_descriptor ep) \<longrightarrow>
             slot_of (ep_descriptor e) \<noteq> slot_of (ep_descriptor ep)) \<longrightarrow>
          (if is_in (ep_descriptor ep)
           then in_endpoints m' (slot_of (ep_descriptor ep)) =
                  in_endpoints m (slot_of (ep_descriptor ep)) \<and>
                in_queues m' (slot_of (ep_descriptor ep)) =
                  in_queues m (slot_of (ep_descriptor ep)) \<and>
                (slot_of (ep_descriptor ep) \<in> {1..<16} \<and>
                 in_endpoints m (slot_of (ep_descriptor ep)) = None \<longrightarrow>
                   in_readers m' (slot_of (ep_descriptor ep)) = None \<and>
                   in_writers m' (slot_of (ep_descriptor ep)) = None \<and>
                   in_readerThreads m' (slot_of (ep_descriptor ep)) =
                     in_readerThreads m (slot_of (ep_descriptor ep)) \<and>
                   in_writerThreads m' (slot_of (ep_descriptor ep)) =
                     in_writerThreads m (slot_of (ep_descriptor ep)))
           else out_endpoints m' (slot_of (ep_descriptor ep)) =
                  out_endpoints m (slot_of (ep_descriptor ep)) \<and>
                out_queues m' (slot_of (ep_descriptor ep)) =
                  out_queues m (slot_of (ep_descriptor ep)) \<and>
                (slot_of (ep_descriptor ep) \<in> {1..<16} \<and>
                 out_endpoints m (slot_of (ep_descriptor ep)) = None \<longrightarrow>
                   out_readers m' (slot_of (ep_descriptor ep)) = None \<and>
                   out_writers m' (slot_of (ep_descriptor ep)) = None \<and>
                   out_readerThreads m' (slot_of (ep_descriptor ep)) =
                     out_readerThreads m (slot_of (ep_descriptor ep)) \<and>
                   out_writerThreads m' (slot_of (ep_descriptor ep)) =
                     out_writerThreads m (slot_of (ep_descriptor ep))))"
  proof
    assume free: "\<forall>e \<in> set (endpoints_of cfg).
             \<not> is_isochronous (ep_descriptor e) \<and>
             is_in (ep_descriptor e) = is_in (ep_descriptor ep) \<longrightarrow>
             slot_of (ep_descriptor e) \<noteq> slot_of (ep_descriptor ep)"
    show "if is_in (ep_descriptor ep)
           then in_endpoints m' (slot_of (ep_descriptor ep)) =
                  in_endpoints m (slot_of (ep_descriptor ep)) \<and>
                in_queues m' (slot_of (ep_descriptor ep)) =
                  in_queues m (slot_of (ep_descriptor ep)) \<and>
                (slot_of (ep_descriptor ep) \<in> {1..<16} \<and>
                 in_endpoints m (slot_of (ep_descriptor ep)) = None \<longrightarrow>
                   in_readers m' (slot_of (ep_descriptor ep)) = None \<and>
                   in_writers m' (slot_of (ep_descriptor ep)) = None \<and>
                   in_readerThreads m' (slot_of (ep_descriptor ep)) =
                     in_readerThreads m (slot_of (ep_descriptor ep)) \<and>
                   in_writerThreads m' (slot_of (ep_descriptor ep)) =
                     in_writerThreads m (slot_of (ep_descriptor ep)))
           else out_endpoints m' (slot_of (ep_descriptor ep)) =
                  out_endpoints m (slot_of (ep_descriptor ep)) \<and>
                out_queues m' (slot_of (ep_descriptor ep)) =
                  out_queues m (slot_of (ep_descriptor ep)) \<and>
                (slot_of (ep_descriptor ep) \<in> {1..<16} \<and>
                 out_endpoints m (slot_of (ep_descriptor ep)) = None \<longrightarrow>
                   out_readers m' (slot_of (ep_descriptor ep)) = None \<and>
                   out_writers m' (slot_of (ep_descriptor ep)) = None \<and>
                   out_readerThreads m' (slot_of (ep_descriptor ep)) =
                     out_readerThreads m (slot_of (ep_descriptor ep)) \<and>
                   out_writerThreads m' (slot_of (ep_descriptor ep)) =
                     out_writerThreads m (slot_of (ep_descriptor ep)))"
    proof (cases "is_in (ep_descriptor ep)")
      case True
      with free have "\<forall>e \<in> set (endpoints_of cfg).
             relayed e \<and> is_in (ep_descriptor e) \<longrightarrow>
             slot_of (ep_descriptor e) \<noteq> slot_of (ep_descriptor ep)"
        by (simp add: relayed_def)
      from enumerate_untouched_in [OF 1 this] tf
      have same: "in_endpoints m' (slot_of (ep_descriptor ep)) =
                  in_endpoints m (slot_of (ep_descriptor ep))"
        "in_queues m' (slot_of (ep_descriptor ep)) = in_queues m (slot_of (ep_descriptor ep))"
        by simp_all
      have "in_readers m' (slot_of (ep_descriptor ep)) = None \<and>
            in_writers m' (slot_of (ep_descriptor ep)) = None \<and>
            in_readerThreads m' (slot_of (ep_descriptor ep)) =
              in_readerThreads m (slot_of (ep_descriptor ep)) \<and>
            in_writerThreads m' (slot_of (ep_descriptor ep)) =
              in_writerThreads m (slot_of (ep_descriptor ep))"
        if s: "slot_of (ep_descriptor ep) \<in> {1..<16}"
          and none: "in_endpoints m (slot_of (ep_descriptor ep)) = None"
      proof -
        from paired [OF s] have "slot_paired Device_proxy Host_proxy
            (in_endpoints m' (slot_of (ep_descriptor ep))) (in_queues m' (slot_of (ep_descriptor ep)))
            (in_readers m' (slot_of (ep_descriptor ep))) (in_writers m' (slot_of (ep_descriptor ep)))"
          by (simp add: in_paired_def)
        from paired_relays [OF this] same(1) none
        have "in_readers m' (slot_of (ep_descriptor ep)) = None"
          "in_writers m' (slot_of (ep_descriptor ep)) = None" by simp_all
        with threads_after_start(1,2) [OF run s] show ?thesis by simp
      qed
      with same True show ?thesis by simp
    next
      case False
      with free have "\<forall>e \<in> set (endpoints_of cfg).
             relayed e \<and> \<not> is_in (ep_descriptor e) \<longrightarrow>
             slot_of (ep_descriptor e) \<noteq> slot_of (ep_descriptor ep)"
        by (simp add: relayed_def)
      from enumerate_untouched_out [OF 1 this] tf
      have same: "out_endpoints m' (slot_of (ep_descriptor ep)) =
                  out_endpoints m (slot_of (ep_descriptor ep))"
        "out_queues m' (slot_of (ep_descriptor ep)) = out_queues m (slot_of (ep_descriptor ep))"
        by simp_all
      have "out_readers m' (slot_of (ep_descriptor ep)) = None \<and>
            out_writers m' (slot_of (ep_descriptor ep)) = None \<and>
            out_readerThreads m' (slot_of (ep_descriptor ep)) =
              out_readerThreads m (slot_of (ep_descriptor ep)) \<and>
            out_writerThreads m' (slot_of (ep_descriptor ep)) =
              out_writerThreads m (slot_of (ep_descriptor ep))"
        if s: "slot_of (ep_descriptor ep) \<in> {1..<16}"
          and none: "out_endpoints m (slot_of (ep_descriptor ep)) = None"
      proof -
        from paired [OF s] have "slot_paired Host_proxy Device_proxy
            (out_endpoints m' (slot_of (ep_descriptor ep))) (out_queues m' (slot_of (ep_descriptor ep)))
            (out_readers m' (slot_of (ep_descriptor ep))) (out_writers m' (slot_of (ep_descriptor ep)))"
          by (simp add: out_paired_def)
        from paired_relays [OF this] same(1) none
        have "out_readers m' (slot_of (ep_descriptor ep)) = None"
          "out_writers m' (slot_of (ep_descriptor ep)) = None" by simp_all
        with threads_after_start(3,4) [OF run s] show ?thesis by simp
      qed
      with same False show ?thesis by simp
    qed
  qed
  have others: "\<forall>e \<in> set (endpoints_of cfg).
            \<not> is_isochronous (ep_descriptor e) \<and> slot_of (ep_descriptor e) \<in> {1..<16} \<longrightarrow>
            (if is_in (ep_descriptor e)
             then in_endpoints m' (slot_of (ep_descriptor e)) \<noteq> None \<and>
                  in_queues m' (slot_of (ep_descriptor e)) \<noteq> Indeterminate \<and>
                  in_readers m' (slot_of (ep_descriptor e)) \<noteq> None \<and>
                  in_writers m' (slot_of (ep_descriptor e)) \<noteq> None \<and>
                  in_readerThreads m' (slot_of (ep_descriptor e)) \<and>
                  in_writerThreads m' (slot_of (ep_descriptor e)) \<and>
                  Thread_start (In_reader (slot_of (ep_descriptor e))) \<in> set (trace m') \<and>
                  Thread_start (In_writer (slot_of (ep_descriptor e))) \<in> set (trace m')
             else out_endpoints m' (slot_of (ep_descriptor e)) \<noteq> None \<and>
                  out_queues m' (slot_of (ep_descriptor e)) \<noteq> Indeterminate \<and>
                  out_readers m' (slot_of (ep_descriptor e)) \<noteq> None \<and>
                  out_writers m' (slot_of (ep_descriptor e)) \<noteq> None \<and>
                  out_readerThreads m' (slot_of (ep_descriptor e)) \<and>
                  out_writerThreads m' (slot_of (ep_descriptor e)) \<and>
                  Thread_start (Out_reader (slot_of (ep_descriptor e))) \<in> set (trace m') \<and>
                  Thread_start (Out_writer (slot_of (ep_descriptor e))) \<in> set (trace m'))"
  proof (intro ballI impI)
    fix e
    assume e: "e \<in> set (endpoints_of cfg)"
      and "\<not> is_isochronous (ep_descriptor e) \<and> slot_of (ep_descriptor e) \<in> {1..<16}"
    then have r: "relayed e" and s: "slot_of (ep_descriptor e) \<in> {1..<16}"
      by (simp_all add: relayed_def)
    from paired [OF s] have
      a: "slot_paired Device_proxy Host_proxy (in_endpoints m' (slot_of (ep_descriptor e)))
            (in_queues m' (slot_of (ep_descriptor e))) (in_readers m' (slot_of (ep_descriptor e)))
            (in_writers m' (slot_of (ep_descriptor e)))"
      and b: "slot_paired Host_proxy Device_proxy (out_endpoints m' (slot_of (ep_descriptor e)))
            (out_queues m' (slot_of (ep_descriptor e))) (out_readers m' (slot_of (ep_descriptor e)))
            (out_writers m' (slot_of (ep_descriptor e)))"
      by (simp_all add: in_paired_def out_paired_def)
    from enumerate_installed [OF 1 e r] tf paired_relays [OF a] paired_relays [OF b]
    have base: "if is_in (ep_descriptor e)
             then in_endpoints m' (slot_of (ep_descriptor e)) \<noteq> None \<and>
                  in_queues m' (slot_of (ep_descriptor e)) \<noteq> Indeterminate \<and>
                  in_readers m' (slot_of (ep_descriptor e)) \<noteq> None \<and>
                  in_writers m' (slot_of (ep_descriptor e)) \<noteq> None
             else out_endpoints m' (slot_of (ep_descriptor e)) \<noteq> None \<and>
                  out_queues m' (slot_of (ep_descriptor e)) \<noteq> Indeterminate \<and>
                  out_readers m' (slot_of (ep_descriptor e)) \<noteq> None \<and>
                  out_writers m' (slot_of (ep_descriptor e)) \<noteq> None"
      by (cases "is_in (ep_descriptor e)") simp_all
    note th = threads_after_start [OF run s]
    from base th show "if is_in (ep_descriptor e)
             then in_endpoints m' (slot_of (ep_descriptor e)) \<noteq> None \<and>
                  in_queues m' (slot_of (ep_descriptor e)) \<noteq> Indeterminate \<and>
                  in_readers m' (slot_of (ep_descriptor e)) \<noteq> None \<and>
                  in_writers m' (slot_of (ep_descriptor e)) \<noteq> None \<and>
                  in_readerThreads m' (slot_of (ep_descriptor e)) \<and>
                  in_writerThreads m' (slot_of (ep_descriptor e)) \<and>
                  Thread_start (In_reader (slot_of (ep_descriptor e))) \<in> set (trace m') \<and>
                  Thread_start (In_writer (slot_of (ep_descriptor e))) \<in> set (trace m')
             else out_endpoints m' (slot_of (ep_descriptor e)) \<noteq> None \<and>
                  out_queues m' (slot_of (ep_descriptor e)) \<noteq> Indeterminate \<and>
                  out_readers m' (slot_of (ep_descriptor e)) \<noteq> None \<and>
                  out_writers m' (slot_of (ep_descriptor e)) \<noteq> None \<and>
                  out_readerThreads m' (slot_of (ep_descriptor e)) \<and>
                  out_writerThreads m' (slot_of (ep_descriptor e)) \<and>
                  Thread_start (Out_reader (slot_of (ep_descriptor e))) \<in> set (trace m') \<and>
                  Thread_start (Out_writer (slot_of (ep_descriptor e))) \<in> set (trace m')"
      by (cases "is_in (ep_descriptor e)") simp_all
  qed
  from logged entries relays count untouched others show ?thesis by blast
qed

text \<open>
  C7 as stated fails when an endpoint that is not isochronous has the direction and the
  number of the isochronous one: with endpoint 0x83 isochronous in alternate setting 0 and
  bulk in alternate setting 1, the isochronous endpoint is logged and skipped, and slot 3
  (IN), empty before the call, ends with an endpoint, a queue, a reader, a writer and two
  running threads, those of the bulk endpoint.
\<close>

theorem isochronous_slot_shared_counterexample:
  "(case start_data_relaying shared_slot_manager of
      Inr m' \<Rightarrow>
        endpoints_of shared_slot_configuration = [sample_endpoint 0x83 1, sample_endpoint 0x83 2] \<and>
        is_isochronous (ep_descriptor (sample_endpoint 0x83 1)) \<and>
        is_in (ep_descriptor (sample_endpoint 0x83 1)) \<and>
        slot_of (ep_descriptor (sample_endpoint 0x83 1)) = 3 \<and>
        in_endpoints shared_slot_manager 3 = None \<and>
        in_endpoints m' 3 = Some (sample_endpoint 0x83 2) \<and>
        in_queues m' 3 = Stored 0 \<and>
        in_readers m' 3 =
          Some (new_RelayReader (sample_endpoint 0x83 2) Device_proxy (Packet_queue 0)) \<and>
        in_writers m' 3 =
          Some (new_RelayWriter (sample_endpoint 0x83 2) Host_proxy False (Packet_queue 0)) \<and>
        in_readerThreads m' 3 \<and> in_writerThreads m' 3 \<and>
        trace m' =
          [Log_isochronous 0x83, Proxy_call Device_proxy (Set_endpoint_interface 0x83 0),
           Proxy_call Device_proxy (Claim_interface 0),
           Thread_start (In_reader 3), Thread_start (In_writer 3)]
    | Inl _ \<Rightarrow> False)"
  by (simp add: run_data shared_slot_manager_def shared_slot_configuration_def endpoints_of_def
        configuration_endpoints_def Let_def cong: and_then_weak_cong)

theorem start_data_relaying_skips_isochronous_witness:
  "\<exists>m'. start_data_relaying configured_manager = Inr m' \<and>
     Log_isochronous 0x83 \<in> set (trace m') \<and>
     queues_allocated m' = queues_allocated configured_manager + 2 \<and>
     in_endpoints m' 3 = None \<and> in_queues m' 3 = in_queues configured_manager 3 \<and>
     in_readers m' 3 = None \<and> in_writers m' 3 = None \<and>
     \<not> in_readerThreads m' 3 \<and> \<not> in_writerThreads m' 3 \<and>
     in_endpoints m' 1 \<noteq> None \<and> in_queues m' 1 \<noteq> Indeterminate \<and> in_readers m' 1 \<noteq> None \<and>
     in_writers m' 1 \<noteq> None \<and> in_readerThreads m' 1 \<and> in_writerThreads m' 1 \<and>
     Thread_start (In_reader 1) \<in> set (trace m') \<and> Thread_start (In_writer 1) \<in> set (trace m') \<and>
     out_endpoints m' 2 \<noteq> None \<and> out_queues m' 2 \<noteq> Indeterminate \<and> out_readers m' 2 \<noteq> None \<and>
     out_writers m' 2 \<noteq> None \<and> out_readerThreads m' 2 \<and> out_writerThreads m' 2 \<and>
     Thread_start (Out_reader 2) \<in> set (trace m') \<and> Thread_start (Out_writer 2) \<in> set (trace m')"
proof -
  from start_data_relaying_sample obtain m' where
    run: "start_data_relaying configured_manager = Inr m'" by blast
  have dev: "device configured_manager = Some sample_device"
    "get_active_configuration sample_device = Some sample_configuration"
    by (simp_all add: configured_manager_def sample_device_def get_active_configuration_def
          get_configuration_def)
  have clean: "\<forall>i e. in_endpoints configured_manager i = Some e \<or>
      out_endpoints configured_manager i = Some e \<longrightarrow> \<not> is_isochronous (ep_descriptor e)"
    by (simp add: configured_manager_def plugged_manager_def Manager_new_def)
  have pre: "\<forall>i \<in> {1..<16}.
             (in_endpoints configured_manager i = None \<longrightarrow>
                in_readers configured_manager i = None \<and> in_writers configured_manager i = None) \<and>
             (out_endpoints configured_manager i = None \<longrightarrow>
                out_readers configured_manager i = None \<and> out_writers configured_manager i = None)"
    by (simp add: configured_manager_def plugged_manager_def Manager_new_def)
  have eps: "endpoints_of sample_configuration =
      [sample_endpoint 0x81 2, sample_endpoint 0x02 2, sample_endpoint 0x83 1]"
    by (simp add: endpoints_of_def configuration_endpoints_def sample_configuration_def)
  have ep: "sample_endpoint 0x83 1 \<in> set (endpoints_of sample_configuration)"
    "is_isochronous (ep_descriptor (sample_endpoint 0x83 1))"
    by (simp_all add: eps) (simp add: sample_endpoint_def is_isochronous_def)
  have facts: "\<not> is_isochronous (ep_descriptor (sample_endpoint 0x81 2))"
    "\<not> is_isochronous (ep_descriptor (sample_endpoint 0x02 2))"
    "is_in (ep_descriptor (sample_endpoint 0x81 2))"
    "\<not> is_in (ep_descriptor (sample_endpoint 0x02 2))"
    "is_in (ep_descriptor (sample_endpoint 0x83 1))"
    "slot_of (ep_descriptor (sample_endpoint 0x81 2)) = 1"
    "slot_of (ep_descriptor (sample_endpoint 0x02 2)) = 2"
    "slot_of (ep_descriptor (sample_endpoint 0x83 1)) = 3"
    "bEndpointAddress (ep_descriptor (sample_endpoint 0x83 1)) = 0x83"
    by (simp_all add: sample_endpoint_def is_isochronous_def is_in_def slot_of_def)
  have start: "in_endpoints configured_manager 3 = None"
    "\<not> in_readerThreads configured_manager 3" "\<not> in_writerThreads configured_manager 3"
    by (simp_all add: configured_manager_def plugged_manager_def Manager_new_def)
  from start_data_relaying_skips_isochronous [OF run dev clean pre ep]
  have "Log_isochronous 0x83 \<in> set (trace m') \<and>
     queues_allocated m' = queues_allocated configured_manager + 2 \<and>
     in_endpoints m' 3 = None \<and> in_queues m' 3 = in_queues configured_manager 3 \<and>
     in_readers m' 3 = None \<and> in_writers m' 3 = None \<and>
     \<not> in_readerThreads m' 3 \<and> \<not> in_writerThreads m' 3 \<and>
     in_endpoints m' 1 \<noteq> None \<and> in_queues m' 1 \<noteq> Indeterminate \<and> in_readers m' 1 \<noteq> None \<and>
     in_writers m' 1 \<noteq> None \<and> in_readerThreads m' 1 \<and> in_writerThreads m' 1 \<and>
     Thread_start (In_reader 1) \<in> set (trace m') \<and> Thread_start (In_writer 1) \<in> set (trace m') \<and>
     out_endpoints m' 2 \<noteq> None \<and> out_queues m' 2 \<noteq> Indeterminate \<and> out_readers m' 2 \<noteq> None \<and>
     out_writers m' 2 \<noteq> None \<and> out_readerThreads m' 2 \<and> out_writerThreads m' 2 \<and>
     Thread_start (Out_reader 2) \<in> set (trace m') \<and> Thread_start (Out_writer 2) \<in> set (trace m')"
    using ep(2) by (simp add: eps facts start)
  with run show ?thesis by blast
qed

subsection \<open>setConfig\<close>

lemma proxies_setConfig_result:
  "proxies_setConfig a b hs m = Inr m' \<Longrightarrow>
   m' = emit (Proxy_call Host_proxy (SetConfig a b hs))
          (emit (Proxy_call Device_proxy (SetConfig a b hs)) m)"
  by (auto simp: proxies_setConfig_def proxy_call_def and_then_def split: if_splits)

text \<open>
  C3. setConfig(index) first makes index the active configuration of the device model and
  then calls setConfig on the device proxy and on the host proxy with the same arguments:
  with a device qualifier and high speed, the qualifier's configuration, the device's
  configuration and true; with a qualifier and not high speed, the device's
  configuration, the qualifier's configuration and false; without qualifier, the device's
  configuration, null and the device's speed flag. Nothing that follows calls setConfig
  on a proxy again.
\<close>

theorem setConfig_dispatch:
  assumes "setConfig index m = Inr m'" and "device m = Some d"
  shows "device m' = Some (set_active_configuration index d) \<and>
         (\<exists>rest. list_all (\<lambda>e. \<not> is_SetConfig e) rest \<and>
            trace m' =
              trace m @
              (case dev_qualifier d of
                 Some qualifier \<Rightarrow>
                   if dev_highspeed d
                   then dispatch_record index (dq_configurations qualifier index)
                          (get_configuration d index) True
                   else dispatch_record index (get_configuration d index)
                          (dq_configurations qualifier index) False
               | None \<Rightarrow>
                   dispatch_record index (get_configuration d index) None (dev_highspeed d)) @
              rest)"
proof -
  define d1 where "d1 = set_active_configuration index d"
  define m1 where "m1 = emit (Device_set_active_configuration index) (m\<lparr>device := Some d1\<rparr>)"
  define fs where "fs = (case dev_qualifier d of
      Some qualifier \<Rightarrow> if dev_highspeed d then dq_configurations qualifier index
        else get_configuration d index
    | None \<Rightarrow> get_configuration d index)"
  define hs where "hs = (case dev_qualifier d of
      Some qualifier \<Rightarrow> if dev_highspeed d then get_configuration d index
        else dq_configurations qualifier index
    | None \<Rightarrow> None)"
  have same: "dev_qualifier d1 = dev_qualifier d" "dev_highspeed d1 = dev_highspeed d"
    "get_configuration d1 index = get_configuration d index"
    by (simp_all add: d1_def set_active_configuration_def get_configuration_def)
  have "setConfig index m =
          and_then (proxies_setConfig fs hs (dev_highspeed d) m1) start_data_relaying"
    using assms(2) same
    by (simp add: setConfig_def Let_def d1_def [symmetric] m1_def [symmetric] fs_def hs_def
          split: option.splits)
  with assms(1) obtain m2 where
    2: "proxies_setConfig fs hs (dev_highspeed d) m1 = Inr m2"
    and 3: "start_data_relaying m2 = Inr m'"
    by (auto elim: and_thenE)
  from proxies_setConfig_result [OF 2]
  have t2: "trace m2 = trace m @ dispatch_record index fs hs (dev_highspeed d)"
    and dev2: "device m2 = Some d1"
    by (simp_all add: m1_def emit_def dispatch_record_def)
  from start_data_relaying_quiet [OF 3] obtain rest where
    rest: "trace m' = trace m2 @ rest" "list_all (\<lambda>e. \<not> is_SetConfig e) rest"
    and "device m' = device m2"
    by (auto simp: quiet_def setup_of_def)
  then have "device m' = Some (set_active_configuration index d)"
    using dev2 by (simp add: d1_def)
  moreover have "trace m' =
              trace m @
              (case dev_qualifier d of
                 Some qualifier \<Rightarrow>
                   if dev_highspeed d
                   then dispatch_record index (dq_configurations qualifier index)
                          (get_configuration d index) True
                   else dispatch_record index (get_configuration d index)
                          (dq_configurations qualifier index) False
               | None \<Rightarrow>
                   dispatch_record index (get_configuration d index) None (dev_highspeed d)) @
              rest"
    using rest(1) t2 by (simp add: fs_def hs_def split: option.splits)
  ultimately show ?thesis using rest(2) by blast
qed

lemma setConfig_sample:
  "\<exists>m'. setConfig 1 configured_manager = Inr m'"
  "\<exists>m'. setConfig 1 (configured_manager\<lparr>device := Some highspeed_device\<rparr>) = Inr m'"
  by (simp_all add: run_data highspeed_device_def Let_def cong: and_then_weak_cong)

theorem setConfig_dispatch_witness:
  "(\<exists>m' rest. setConfig 1 configured_manager = Inr m' \<and>
      device m' = Some sample_device \<and>
      trace m' =
        [Device_set_active_configuration 1,
         Proxy_call Device_proxy (SetConfig (Some sample_configuration) None False),
         Proxy_call Host_proxy (SetConfig (Some sample_configuration) None False)] @ rest) \<and>
   (\<exists>m' rest. setConfig 1 (configured_manager\<lparr>device := Some highspeed_device\<rparr>) = Inr m' \<and>
      trace m' =
        [Device_set_active_configuration 1,
         Proxy_call Device_proxy
           (SetConfig (Some other_speed_configuration) (Some sample_configuration) True),
         Proxy_call Host_proxy
           (SetConfig (Some other_speed_configuration) (Some sample_configuration) True)] @
        rest)"
proof
  from setConfig_sample(1) obtain m' where
    run: "setConfig 1 configured_manager = Inr m'" by blast
  have dev: "device configured_manager = Some sample_device"
    by (simp add: configured_manager_def)
  from setConfig_dispatch [OF run dev] run
  show "\<exists>m' rest. setConfig 1 configured_manager = Inr m' \<and>
      device m' = Some sample_device \<and>
      trace m' =
        [Device_set_active_configuration 1,
         Proxy_call Device_proxy (SetConfig (Some sample_configuration) None False),
         Proxy_call Host_proxy (SetConfig (Some sample_configuration) None False)] @ rest"
    by (auto simp: dispatch_record_def sample_device_def get_configuration_def
          set_active_configuration_def configured_manager_def plugged_manager_def Manager_new_def)
next
  from setConfig_sample(2) obtain m' where
    run: "setConfig 1 (configured_manager\<lparr>device := Some highspeed_device\<rparr>) = Inr m'" by blast
  have dev: "device (configured_manager\<lparr>device := Some highspeed_device\<rparr>) = Some highspeed_device"
    by simp
  from setConfig_dispatch [OF run dev] run
  show "\<exists>m' rest. setConfig 1 (configured_manager\<lparr>device := Some highspeed_device\<rparr>) = Inr m' \<and>
      trace m' =
        [Device_set_active_configuration 1,
         Proxy_call Device_proxy
           (SetConfig (Some other_speed_configuration) (Some sample_configuration) True),
         Proxy_call Host_proxy
           (SetConfig (Some other_speed_configuration) (Some sample_configuration) True)] @
        rest"
    by (auto simp: dispatch_record_def sample_device_def highspeed_device_def
          get_configuration_def configured_manager_def plugged_manager_def Manager_new_def)
qed

lemmas run_control = run_data start_control_relaying_def connect_device_def connect_host_def
  connect_retrying_def connect_loop.simps observe_def ETIMEDOUT_def control_setup_def
  relay_setup_def host_setup_def launch_ep0_def ep0_descriptor_def apply_filter_ep0_def
  apply_injector_ep0_def start_injector_thread_def sample_environment_def
  injecting_manager_def match_all_injector_def block_read_def

text \<open>
  C5. The claim: stop_relaying destroys every PacketQueue that start_data_relaying
  created and releases the queue slots with the endpoint, reader and writer slots. On the
  sample device, after control setup, setConfig(1) and stop_relaying, the status is IDLE,
  the endpoint, reader and writer slots are empty and no injector thread is left, but the
  queue slots 1 (IN) and 2 (OUT) still hold their queues.
\<close>

theorem queues_outlive_stop_relaying:
  "(case start_control_relaying sample_environment plugged_manager of
      Some (Inr m1) \<Rightarrow>
        (case setConfig 1 m1 of
           Inr m2 \<Rightarrow>
             (case stop_relaying m2 of
                Inr m3 \<Rightarrow>
                  status m1 = USBM_RELAYING \<and> status m2 = USBM_RELAYING \<and>
                  in_queues m2 1 = Stored 0 \<and> out_queues m2 2 = Stored 1 \<and>
                  queues_allocated m2 = 2 \<and>
                  status m3 = USBM_IDLE \<and> injectorThreads m3 = [] \<and>
                  in_endpoints m3 1 = None \<and> in_readers m3 1 = None \<and>
                  in_writers m3 1 = None \<and> out_endpoints m3 2 = None \<and>
                  out_readers m3 2 = None \<and> out_writers m3 2 = None \<and>
                  in_queues m3 1 = Stored 0 \<and> out_queues m3 2 = Stored 1 \<and>
                  queues_allocated m3 = 2
              | Inl _ \<Rightarrow> False)
         | Inl _ \<Rightarrow> False)
    | _ \<Rightarrow> False)"
  by (simp add: run_control Let_def cong: and_then_weak_cong)

text \<open>
  C8. The claim: during EP0 setup, for every injector whose device and endpoint predicates
  both pass for EP0, start_control_relaying wires the injector's outbound queue into the
  injection intake of the EP0 writer before the injector's listen task is started. The
  method (lines 470-519): with one registered injector whose predicates pass for the
  device and for EP0, it reaches RELAYING and starts the listen task of the injector, and
  the only calls it has made are the ones on the proxies, on the device model and on the
  threads; the injection intake of the EP0 writer is empty. With a filter registered as
  well, whose predicates pass in the same way, the filter is in the filter chain of the EP0
  writer and the intake is still empty.
\<close>

theorem ep0_injector_not_wired:
  "inj_device (match_all_injector 0) sample_device \<and>
   inj_endpoint (match_all_injector 0) \<lparr>ep_interface = None, ep_descriptor = ep0_descriptor sample_device\<rparr> \<and>
   (case start_control_relaying sample_environment injecting_manager of
      Some (Inr m') \<Rightarrow>
        status m' = USBM_RELAYING \<and> injectorThreads m' = [Injector_listen 0] \<and>
        (case out_writers m' 0 of Some w \<Rightarrow> wr_injection w = [] | None \<Rightarrow> False) \<and>
        trace m' =
          [Proxy_call Device_proxy Connect, Device_print, Proxy_call Device_proxy (Claim_interface 0),
           Thread_start (Injector_listen 0), Proxy_call Host_proxy Connect,
           Thread_start (Out_reader 0), Thread_start (Out_writer 0)]
    | _ \<Rightarrow> False) \<and>
   (case start_control_relaying sample_environment
           (injecting_manager\<lparr>filters := Some [Stored (Some (match_all_filter 7))],
                               filterCount := 1\<rparr>) of
      Some (Inr m') \<Rightarrow>
        status m' = USBM_RELAYING \<and> injectorThreads m' = [Injector_listen 0] \<and>
        (case out_writers m' 0 of
           Some w \<Rightarrow> map pf_id (wr_filters w) = [7] \<and> map inj_id (wr_injection w) = []
         | None \<Rightarrow> False)
    | _ \<Rightarrow> False)"
  by (simp add: run_control match_all_filter_def writer_add_filter_def Let_def
      cong: and_then_weak_cong)

section \<open>The control setup\<close>

subsection \<open>The connection loop\<close>

lemma connect_loop_exit:
  "rc \<noteq> ETIMEDOUT \<or> status s \<noteq> USBM_SETUP \<Longrightarrow>
   connect_loop p rcs obs n rc s = Some (Inr (rc, s))"
  by (subst connect_loop.simps) auto

lemma connect_loop_again:
  "proxy_present p s \<Longrightarrow> status s = USBM_SETUP \<Longrightarrow>
   connect_loop p rcs obs n ETIMEDOUT s =
     connect_loop p rcs obs (Suc n) (rcs (Suc n)) (obs (Suc n) (emit (Proxy_call p Connect) s))"
  by (subst connect_loop.simps) (simp add: proxy_call_def)

lemma connect_loop_skip:
  assumes "proxy_present p s" and "status s = USBM_SETUP"
      and "\<forall>k. j \<le> k \<and> k < j + i \<longrightarrow> rcs k = ETIMEDOUT"
      and "\<forall>k t. j < k \<and> k \<le> j + i \<longrightarrow> obs k t = t"
  shows "connect_loop p rcs obs j (rcs j) s =
           connect_loop p rcs obs (j + i) (rcs (j + i))
             (s\<lparr>trace := trace s @ replicate i (Proxy_call p Connect)\<rparr>)"
  using assms
proof (induction i arbitrary: j s)
  case 0
  then show ?case by simp
next
  case (Suc i)
  let ?s = "emit (Proxy_call p Connect) s"
  from Suc.prems have rc: "rcs j = ETIMEDOUT" and ob: "obs (Suc j) ?s = ?s" by simp_all
  have pres: "proxy_present p ?s" "status ?s = USBM_SETUP"
    using Suc.prems(1,2) by (cases p; simp add: proxy_present_def emit_def)+
  have "connect_loop p rcs obs j (rcs j) s = connect_loop p rcs obs (Suc j) (rcs (Suc j)) ?s"
    using connect_loop_again [OF Suc.prems(1,2), of rcs obs j] rc ob by simp
  also have "\<dots> = connect_loop p rcs obs (Suc j + i) (rcs (Suc j + i))
             (?s\<lparr>trace := trace ?s @ replicate i (Proxy_call p Connect)\<rparr>)"
    by (rule Suc.IH [OF pres]) (use Suc.prems(3,4) in auto)
  finally show ?case by (simp add: emit_def replicate_app_Cons_same)
qed

lemma connect_retrying_result:
  assumes present: "proxy_present p m" and st: "status m = USBM_SETUP"
      and before: "\<forall>k<n. rcs k = ETIMEDOUT \<and> (\<forall>t. obs k t = t)"
      and last: "rcs n \<noteq> ETIMEDOUT \<or>
                 status (obs n (m\<lparr>trace := trace m @ replicate (Suc n) (Proxy_call p Connect)\<rparr>))
                   \<noteq> USBM_SETUP"
  shows "connect_retrying p rcs obs m =
           Some (Inr (rcs n,
             obs n (m\<lparr>trace := trace m @ replicate (Suc n) (Proxy_call p Connect)\<rparr>)))"
proof (cases n)
  case 0
  with present last show ?thesis
    by (simp add: connect_retrying_def proxy_call_def connect_loop_exit emit_def)
next
  case (Suc i)
  let ?s0 = "emit (Proxy_call p Connect) m"
  have pres0: "proxy_present p ?s0" "status ?s0 = USBM_SETUP"
    using present st by (cases p; simp add: proxy_present_def emit_def)+
  from before Suc have ob0: "obs 0 ?s0 = ?s0" by simp
  have "connect_retrying p rcs obs m = connect_loop p rcs obs 0 (rcs 0) ?s0"
    using present ob0 by (simp add: connect_retrying_def proxy_call_def)
  also have "\<dots> = connect_loop p rcs obs (0 + i) (rcs (0 + i))
                (?s0\<lparr>trace := trace ?s0 @ replicate i (Proxy_call p Connect)\<rparr>)"
    by (rule connect_loop_skip [OF pres0]) (use before Suc in auto)
  also have "\<dots> = connect_loop p rcs obs i ETIMEDOUT
                (m\<lparr>trace := trace m @ replicate n (Proxy_call p Connect)\<rparr>)"
    using before Suc by (simp add: emit_def replicate_app_Cons_same)
  also have "\<dots> = connect_loop p rcs obs n (rcs n)
                (obs n (emit (Proxy_call p Connect)
                   (m\<lparr>trace := trace m @ replicate n (Proxy_call p Connect)\<rparr>)))"
    using connect_loop_again [of p "m\<lparr>trace := trace m @ replicate n (Proxy_call p Connect)\<rparr>"
        rcs obs i] present st Suc
    by (cases p; simp add: proxy_present_def)
  also have "emit (Proxy_call p Connect)
                   (m\<lparr>trace := trace m @ replicate n (Proxy_call p Connect)\<rparr>) =
             m\<lparr>trace := trace m @ replicate (Suc n) (Proxy_call p Connect)\<rparr>"
    by (simp add: emit_def replicate_append_same)
  finally show ?thesis using last by (simp add: connect_loop_exit)
qed

text \<open>
  C4. During start_control_relaying the device proxy's connect is called again as long as
  it returns ETIMEDOUT and the status is still SETUP: when the first n calls time out
  without a concurrent stop, and call n either returns another code or is overtaken by a
  stop, connect is called exactly n + 1 times and the loop ends with the code of call n.
  When that code is not zero, the setup aborts: the method returns with status IDLE, having
  done nothing but the connect calls and the message, and RELAYING is never published.
\<close>

theorem device_connect_retry:
  assumes "deviceProxy m"
      and "\<forall>k<n. device_connect env k = ETIMEDOUT \<and> \<not> stop_requested env (During_device_connect k)"
      and "device_connect env n \<noteq> ETIMEDOUT \<or> stop_requested env (During_device_connect n)"
  shows "(\<exists>m1. connect_device env (m\<lparr>status := USBM_SETUP\<rparr>) =
                 Some (Inr (device_connect env n, m1)) \<and>
               trace m1 = trace m @ replicate (Suc n) (Proxy_call Device_proxy Connect)) \<and>
         (device_connect env n \<noteq> 0 \<longrightarrow>
            start_control_relaying env m =
              Some (Inr (m\<lparr>status := USBM_IDLE,
                           trace := trace m @ replicate (Suc n) (Proxy_call Device_proxy Connect) @
                                    [Log_unable_to_connect]\<rparr>)))"
proof -
  let ?m0 = "m\<lparr>status := USBM_SETUP\<rparr>"
  let ?obs = "\<lambda>k. observe env (During_device_connect k)"
  let ?s = "?m0\<lparr>trace := trace ?m0 @ replicate (Suc n) (Proxy_call Device_proxy Connect)\<rparr>"
  have 1: "proxy_present Device_proxy ?m0" "status ?m0 = USBM_SETUP"
    using assms(1) by (simp_all add: proxy_present_def)
  have 2: "\<forall>k<n. device_connect env k = ETIMEDOUT \<and> (\<forall>t. ?obs k t = t)"
    using assms(2) by (simp add: observe_def)
  have 3: "device_connect env n \<noteq> ETIMEDOUT \<or> status (?obs n ?s) \<noteq> USBM_SETUP"
    using assms(3) by (auto simp: observe_def)
  from connect_retrying_result [OF 1 2 3]
  have run: "connect_device env ?m0 = Some (Inr (device_connect env n, ?obs n ?s))"
    by (simp add: connect_device_def)
  have tr: "trace (?obs n ?s) = trace m @ replicate (Suc n) (Proxy_call Device_proxy Connect)"
    by (simp add: observe_def)
  have fin: "(emit Log_unable_to_connect (?obs n ?s))\<lparr>status := USBM_IDLE\<rparr> =
      m\<lparr>status := USBM_IDLE,
        trace := trace m @ replicate (Suc n) (Proxy_call Device_proxy Connect) @
                 [Log_unable_to_connect]\<rparr>"
    by (simp add: observe_def emit_def)
  from run tr fin show ?thesis by (simp add: start_control_relaying_def)
qed

theorem device_connect_retry_witness:
  "start_control_relaying failing_environment plugged_manager =
     Some (Inr (plugged_manager
       \<lparr>status := USBM_IDLE,
        trace := replicate 5 (Proxy_call Device_proxy Connect) @ [Log_unable_to_connect]\<rparr>))"
proof -
  have 1: "deviceProxy plugged_manager" by (simp add: plugged_manager_def)
  have 2: "\<forall>k<4. device_connect failing_environment k = ETIMEDOUT \<and>
             \<not> stop_requested failing_environment (During_device_connect k)"
    by (simp add: failing_environment_def sample_environment_def)
  have 3: "device_connect failing_environment 4 \<noteq> ETIMEDOUT \<or>
             stop_requested failing_environment (During_device_connect 4)"
    by (simp add: failing_environment_def sample_environment_def ETIMEDOUT_def)
  have 4: "device_connect failing_environment 4 \<noteq> 0"
    by (simp add: failing_environment_def sample_environment_def)
  have 5: "trace plugged_manager = []" by (simp add: plugged_manager_def Manager_new_def)
  from device_connect_retry [OF 1 2 3] 4 5 show ?thesis
    by (simp add: numeral_eq_Suc)
qed

subsection \<open>Steps of the control setup\<close>

lemma ep0_kept_refl [simp]: "ep0_kept s s"
  by (simp add: ep0_kept_def)

lemma ep0_kept_trans:
  assumes "ep0_kept a b" and "ep0_kept b c"
  shows "ep0_kept a c"
proof -
  from assms have "same_binding (out_writers a 0) (out_writers c 0)"
    unfolding ep0_kept_def using same_binding_trans by blast
  moreover from assms have
    "status c = status a \<or> status a = USBM_SETUP \<and> status c = USBM_SETUP_ABORT"
    unfolding ep0_kept_def by auto
  ultimately show ?thesis using assms by (simp add: ep0_kept_def)
qed

lemma setting_up_refl [simp]: "setting_up s s"
  by (simp add: setting_up_def)

lemma setting_up_trans: "setting_up a b \<Longrightarrow> setting_up b c \<Longrightarrow> setting_up a c"
  using ep0_kept_trans by (auto simp: setting_up_def)

lemma setting_up_in_setup: "setting_up s s' \<Longrightarrow> in_setup s \<Longrightarrow> in_setup s'"
  by (auto simp: setting_up_def ep0_kept_def in_setup_def)

lemma ep0_kept_in_setup: "ep0_kept s s' \<Longrightarrow> in_setup s \<Longrightarrow> in_setup s'"
  by (auto simp: ep0_kept_def in_setup_def)

lemma setting_up_emit [simp]: "setting_up s (emit e s)"
  by (simp add: setting_up_def ep0_kept_def emit_def)

lemma setting_up_observe [simp]: "setting_up s (observe env c s)"
  by (simp add: setting_up_def ep0_kept_def observe_def)

lemma setting_up_proxy_call: "proxy_call p c s = Inr s' \<Longrightarrow> setting_up s s'"
  by (auto simp: proxy_call_def split: if_splits)

lemma setting_up_quiet:
  assumes "quiet s s'" and "relay_tables s' = relay_tables s" and "thread_tables s' = thread_tables s"
  shows "setting_up s s'"
  using assms
  by (simp add: quiet_def setup_of_def relay_tables_def thread_tables_def setting_up_def
        ep0_kept_def)

lemma setting_up_for_each:
  assumes "for_each body xs m = Inr m'"
      and "\<And>x s s'. x \<in> set xs \<Longrightarrow> body x s = Inr s' \<Longrightarrow> setting_up s s'"
  shows "setting_up m m'"
  using assms(1)
proof (rule for_each_invariant)
  show "setting_up m m" by simp
next
  fix x s s'
  assume "x \<in> set xs" "setting_up m s" "body x s = Inr s'"
  then show "setting_up m s'" using assms(2) setting_up_trans by blast
qed

lemma setting_up_claim_interfaces: "claim_interfaces cfg s = Inr s' \<Longrightarrow> setting_up s s'"
  unfolding claim_interfaces_def
  by (erule setting_up_for_each) (rule setting_up_proxy_call)

lemma setting_up_thread_started:
  "setting_up s (emit e (s\<lparr>out_readerThreads := a\<rparr>))"
  "setting_up s (emit e (s\<lparr>out_writerThreads := a\<rparr>))"
  by (simp_all add: setting_up_def ep0_kept_def emit_def)

lemma setting_up_start_ep0_threads:
  "start_out_reader 0 s = Inr s' \<Longrightarrow> setting_up s s'"
  "start_out_writer 0 s = Inr s' \<Longrightarrow> setting_up s s'"
proof -
  assume "start_out_reader 0 s = Inr s'"
  then show "setting_up s s'"
    unfolding start_out_reader_def
    by (cases "out_readers s 0"; cases "out_readerThreads s 0")
       (auto simp: setting_up_thread_started)
next
  assume "start_out_writer 0 s = Inr s'"
  then show "setting_up s s'"
    unfolding start_out_writer_def
    by (cases "out_writers s 0"; cases "out_writerThreads s 0")
       (auto simp: setting_up_thread_started)
qed

lemma setting_up_writer_add_filter:
  "out_writers s 0 = Some w \<Longrightarrow>
   setting_up s (s\<lparr>out_writers := (out_writers s)(0 \<mapsto> writer_add_filter f w)\<rparr>)"
  by (simp add: setting_up_def ep0_kept_def)

lemma setting_up_apply_filter_ep0:
  assumes "apply_filter_ep0 d i s = Inr s'"
  shows "setting_up s s'"
proof -
  from assms [unfolded apply_filter_ep0_def]
  have "s' = s \<or>
    (\<exists>f. (case out_endpoints s 0 of
              None \<Rightarrow> Inr s
            | Some ep \<Rightarrow>
                if pf_endpoint f ep
                then (case out_writers s 0 of
                        None \<Rightarrow> Inl Null_dereference
                      | Some w \<Rightarrow>
                          Inr (s\<lparr>out_writers :=
                                   (out_writers s)(0 \<mapsto> writer_add_filter f w)\<rparr>))
                else Inr s) = Inr s')"
    by (rule guarded_walk_cases)
  then show ?thesis
  proof (elim disjE exE)
    assume "s' = s"
    then show ?thesis by simp
  next
    fix f
    assume "(case out_endpoints s 0 of
              None \<Rightarrow> Inr s
            | Some ep \<Rightarrow>
                if pf_endpoint f ep
                then (case out_writers s 0 of
                        None \<Rightarrow> Inl Null_dereference
                      | Some w \<Rightarrow>
                          Inr (s\<lparr>out_writers :=
                                   (out_writers s)(0 \<mapsto> writer_add_filter f w)\<rparr>))
                else Inr s) = Inr s'"
    then show ?thesis
      by (cases "out_endpoints s 0"; cases "out_writers s 0")
         (auto simp: setting_up_writer_add_filter split: if_splits)
  qed
qed

lemma apply_injector_ep0_unchanged:
  assumes "apply_injector_ep0 d i s = Inr s'"
  shows "s' = s"
proof (cases "block_read (injectors s) i")
  case (Inl e)
  with assms show ?thesis by (simp add: apply_injector_ep0_def and_then_Inl)
next
  case (Inr p)
  with assms show ?thesis
    by (cases p; cases "out_endpoints s 0")
       (auto simp: apply_injector_ep0_def and_then_Inr split: if_splits)
qed

lemma connect_loop_setting_up:
  assumes run: "connect_loop p rcs obs n rc s = Some (Inr (rc', s'))"
      and obs: "\<And>k t. setting_up t (obs k t)"
  shows "setting_up s s'"
proof -
  define P where "P = (\<lambda>(p :: Proxy) (rcs :: nat \<Rightarrow> int) (obs :: nat \<Rightarrow> Manager \<Rightarrow> Manager)
      (n :: nat) (rc :: int) (s :: Manager) (y :: fault + int \<times> Manager).
      (\<forall>k t. setting_up t (obs k t)) \<longrightarrow> (\<forall>rc' s'. y = Inr (rc', s') \<longrightarrow> setting_up s s'))"
  have "P p rcs obs n rc s (Inr (rc', s'))"
  proof (rule connect_loop.raw_induct [where P = P, OF _ run])
    fix f p rcs obs n rc m y
    assume ih: "\<And>p rcs obs n rc m y. f p rcs obs n rc m = Some y \<Longrightarrow> P p rcs obs n rc m y"
      and step: "(if rc = ETIMEDOUT \<and> status m = USBM_SETUP
        then case proxy_call p Connect m of Inl e \<Rightarrow> Some (Inl e)
             | Inr m1 \<Rightarrow> f p rcs obs (Suc n) (rcs (Suc n)) (obs (Suc n) m1)
        else Some (Inr (rc, m))) = Some y"
    show "P p rcs obs n rc m y"
      unfolding P_def
    proof (intro impI allI)
      fix rc' s'
      assume o: "\<forall>k t. setting_up t (obs k t)" and y: "y = Inr (rc', s')"
      show "setting_up m s'"
      proof (cases "rc = ETIMEDOUT \<and> status m = USBM_SETUP")
        case False
        with step y show ?thesis by simp
      next
        case True
        show ?thesis
        proof (cases "proxy_call p Connect m")
          case (Inl e)
          with True step y show ?thesis by simp
        next
          case (Inr m1)
          with True step have
            rec: "f p rcs obs (Suc n) (rcs (Suc n)) (obs (Suc n) m1) = Some y"
            by simp
          from ih [OF rec] o y have "setting_up (obs (Suc n) m1) s'"
            unfolding P_def by blast
          moreover have "setting_up m (obs (Suc n) m1)"
            using setting_up_proxy_call [OF Inr] o setting_up_trans by blast
          ultimately show ?thesis using setting_up_trans by blast
        qed
      qed
    qed
  qed
  with obs show ?thesis unfolding P_def by blast
qed

lemma connect_retrying_setting_up:
  assumes "connect_retrying p rcs (\<lambda>k. observe env (c k)) s = Some (Inr (rc, s'))"
  shows "setting_up s s'"
proof -
  from assms obtain s1 where
    1: "proxy_call p Connect s = Inr s1"
    and 2: "connect_loop p rcs (\<lambda>k. observe env (c k)) 0 (rcs 0) (observe env (c 0) s1) =
            Some (Inr (rc, s'))"
    by (auto simp: connect_retrying_def split: sum.splits)
  have "setting_up s (observe env (c 0) s1)"
    using setting_up_proxy_call [OF 1] setting_up_observe setting_up_trans by blast
  moreover from 2 have "setting_up (observe env (c 0) s1) s'"
    by (rule connect_loop_setting_up) simp
  ultimately show ?thesis by (rule setting_up_trans)
qed

lemma stop_relaying_from_abort:
  assumes "stop_relaying s = Inr s'" and "status s = USBM_SETUP_ABORT"
  shows "status s' = USBM_IDLE"
proof -
  from assms have
    "and_then (for_each signal_injector [0..<unat (injectorCount s)]
                    (s\<lparr>status := USBM_STOPPING\<rparr>)) (\<lambda>m1.
        and_then (for_each signal_relayers [0..<16] m1) (\<lambda>m2.
        and_then (release_interfaces
                    (delete_ep0 (fold release_slot [0..<16] (join_injectors m2)))) (\<lambda>m3.
        and_then (proxy_call Host_proxy Disconnect m3) (\<lambda>m4.
        and_then (proxy_call Device_proxy Disconnect m4) (\<lambda>m5.
        Inr (m5\<lparr>device := None, status := USBM_IDLE\<rparr>)))))) = Inr s'"
    unfolding stop_relaying_def by (simp only: Manager_status.distinct if_False simp_thms)
  then obtain m5 where "Inr (m5\<lparr>device := None, status := USBM_IDLE\<rparr>) = Inr s'"
    by (elim and_thenE) blast
  then show ?thesis by auto
qed

lemma stop_relaying_in_setup:
  assumes "stop_relaying s = Inr s'" and "in_setup s" and "status s \<noteq> USBM_SETUP"
  shows "status s' = USBM_IDLE"
  using assms stop_relaying_from_abort by (auto simp: in_setup_def)

subsection \<open>The walks and the phases of the control setup\<close>

lemma walk_Cons_cases:
  assumes "walk body cp env (i # rest) s = Inr (r, s')"
  obtains (stopped) "status (observe env (cp i) s) \<noteq> USBM_SETUP"
      "stop_relaying (observe env (cp i) s) = Inr s'" "r"
  | (continued) t where "status (observe env (cp i) s) = USBM_SETUP"
      "body i (observe env (cp i) s) = Inr t" "walk body cp env rest t = Inr (r, s')"
proof (cases "status (observe env (cp i) s) \<noteq> USBM_SETUP")
  case True
  with assms have "and_then (stop_relaying (observe env (cp i) s)) (\<lambda>m2. Inr (True, m2)) =
      Inr (r, s')"
    by (simp add: Let_def)
  then have "stop_relaying (observe env (cp i) s) = Inr s'" "r"
    by (auto elim: and_thenE)
  with True show ?thesis by (rule stopped)
next
  case False
  with assms have "and_then (body i (observe env (cp i) s)) (walk body cp env rest) = Inr (r, s')"
    by (simp add: Let_def)
  then obtain t where "body i (observe env (cp i) s) = Inr t" "walk body cp env rest t = Inr (r, s')"
    by (elim and_thenE)
  with False show ?thesis by (rule_tac continued) simp_all
qed

lemma walk_result:
  assumes "walk body cp env xs s = Inr (r, s')" and "in_setup s"
      and body: "\<And>i t t'. i \<in> set xs \<Longrightarrow> body i t = Inr t' \<Longrightarrow> setting_up t t'"
  shows "if r then status s' = USBM_IDLE else setting_up s s'"
  using assms
proof (induction xs arbitrary: s)
  case Nil
  then show ?case by simp
next
  case (Cons i rest)
  have o: "setting_up s (observe env (cp i) s)" by simp
  then have io: "in_setup (observe env (cp i) s)"
    using Cons.prems(2) by (rule setting_up_in_setup)
  from Cons.prems(1) show ?case
  proof (cases rule: walk_Cons_cases)
    case stopped
    with io show ?thesis using stop_relaying_in_setup by simp
  next
    case (continued t)
    from continued(2) have bt: "setting_up (observe env (cp i) s) t"
      by (rule Cons.prems(3) [rotated]) simp
    with o have st: "setting_up s t" by (rule setting_up_trans)
    then have "in_setup t" using Cons.prems(2) by (rule setting_up_in_setup)
    with continued(3) have "if r then status s' = USBM_IDLE else setting_up t s'"
      by (rule Cons.IH) (rule Cons.prems(3), simp_all)
    with st show ?thesis using setting_up_trans by auto
  qed
qed

lemma start_injector_thread_step:
  assumes "start_injector_thread i t = Inr t'"
  shows "ep0_kept t t'" "injectorThreads t' = injectorThreads t @ [Injector_listen i]"
proof -
  from assms have "t' = emit (Thread_start (Injector_listen i))
      (t\<lparr>injectorThreads := injectorThreads t @ [Injector_listen i]\<rparr>)"
    unfolding start_injector_thread_def by (auto elim: and_thenE)
  then show "ep0_kept t t'" "injectorThreads t' = injectorThreads t @ [Injector_listen i]"
    by (simp_all add: ep0_kept_def emit_def)
qed

lemma thread_walk_result:
  assumes "walk start_injector_thread Injector_thread env xs s = Inr (r, s')" and "in_setup s"
  shows "if r then status s' = USBM_IDLE
         else ep0_kept s s' \<and> injectorThreads s' = injectorThreads s @ map Injector_listen xs"
  using assms
proof (induction xs arbitrary: s)
  case Nil
  then show ?case by simp
next
  case (Cons i rest)
  let ?o = "observe env (Injector_thread i) s"
  have o: "setting_up s ?o" by simp
  then have io: "in_setup ?o" using Cons.prems(2) by (rule setting_up_in_setup)
  from o have ko: "ep0_kept s ?o" "injectorThreads ?o = injectorThreads s"
    by (simp_all add: setting_up_def)
  from Cons.prems(1) show ?case
  proof (cases rule: walk_Cons_cases)
    case stopped
    with io show ?thesis using stop_relaying_in_setup by simp
  next
    case (continued t)
    note step = start_injector_thread_step [OF continued(2)]
    from step(1) io have "in_setup t" by (rule ep0_kept_in_setup)
    with continued(3) have ih: "if r then status s' = USBM_IDLE
         else ep0_kept t s' \<and> injectorThreads s' = injectorThreads t @ map Injector_listen rest"
      by (rule Cons.IH)
    show ?thesis
    proof (cases r)
      case True
      with ih show ?thesis by simp
    next
      case False
      with ih have "ep0_kept t s'"
        "injectorThreads s' = injectorThreads t @ map Injector_listen rest" by simp_all
      moreover have "ep0_kept s t" using ko(1) step(1) by (rule ep0_kept_trans)
      ultimately show ?thesis using False step(2) ko(2) ep0_kept_trans by auto
    qed
  qed
qed

lemma launch_ep0_relaying:
  assumes run: "launch_ep0 env s = Inr m'" and s: "in_setup s"
      and relaying: "status m' = USBM_RELAYING"
  shows "same_binding (out_writers s 0) (out_writers m' 0) \<and>
         injectorThreads m' = injectorThreads s"
proof -
  from run [unfolded launch_ep0_def] obtain m1 where
    1: "start_out_reader 0 s = Inr m1"
    and rest1: "(let m2 = observe env After_reader_thread m1 in
       if status m2 \<noteq> USBM_SETUP then stop_relaying (m2\<lparr>status := USBM_SETUP_ABORT\<rparr>)
       else
         and_then (start_out_writer 0 m2) (\<lambda>m3.
           let m4 = observe env After_writer_thread m3 in
           if status m4 \<noteq> USBM_SETUP then stop_relaying m4
           else Inr (m4\<lparr>status := USBM_RELAYING\<rparr>))) = Inr m'"
    by (elim and_thenE)
  define m2 where "m2 = observe env After_reader_thread m1"
  have s2: "setting_up s m2"
    unfolding m2_def
    using setting_up_start_ep0_threads(1) [OF 1] setting_up_observe setting_up_trans by blast
  have go2: "status m2 = USBM_SETUP"
  proof (rule ccontr)
    assume "status m2 \<noteq> USBM_SETUP"
    with rest1 have "stop_relaying (m2\<lparr>status := USBM_SETUP_ABORT\<rparr>) = Inr m'"
      by (simp add: m2_def [symmetric])
    then have "status m' = USBM_IDLE" by (rule stop_relaying_from_abort) simp
    with relaying show False by simp
  qed
  with rest1 obtain m3 where
    3: "start_out_writer 0 m2 = Inr m3"
    and rest3: "(let m4 = observe env After_writer_thread m3 in
           if status m4 \<noteq> USBM_SETUP then stop_relaying m4
           else Inr (m4\<lparr>status := USBM_RELAYING\<rparr>)) = Inr m'"
    by (auto simp: m2_def [symmetric] elim: and_thenE)
  define m4 where "m4 = observe env After_writer_thread m3"
  have s4: "setting_up s m4"
    unfolding m4_def
    using s2 setting_up_start_ep0_threads(2) [OF 3] setting_up_observe setting_up_trans
    by blast
  then have i4: "in_setup m4" using s by (rule setting_up_in_setup)
  have go4: "status m4 = USBM_SETUP"
  proof (rule ccontr)
    assume a: "status m4 \<noteq> USBM_SETUP"
    with rest3 have "stop_relaying m4 = Inr m'" by (simp add: m4_def [symmetric])
    then have "status m' = USBM_IDLE" using i4 a by (rule stop_relaying_in_setup)
    with relaying show False by simp
  qed
  with rest3 have "m' = m4\<lparr>status := USBM_RELAYING\<rparr>" by (simp add: m4_def [symmetric])
  with s4 show ?thesis by (simp add: setting_up_def ep0_kept_def)
qed

lemma host_setup_relaying:
  assumes run: "host_setup env s = Some (Inr m')" and s: "in_setup s"
      and relaying: "status m' = USBM_RELAYING"
  shows "same_binding (out_writers s 0) (out_writers m' 0) \<and>
         injectorThreads m' = injectorThreads s"
proof -
  from run obtain rc m1 where
    1: "connect_host env s = Some (Inr (rc, m1))"
    and rest: "(if rc \<noteq> 0 then Some (stop_relaying (m1\<lparr>status := USBM_SETUP_ABORT\<rparr>))
          else Some (launch_ep0 env m1)) = Some (Inr m')"
    by (auto simp: host_setup_def split: option.splits sum.splits)
  from 1 have s1: "setting_up s m1"
    unfolding connect_host_def by (rule connect_retrying_setting_up)
  then have i1: "in_setup m1" using s by (rule setting_up_in_setup)
  have "rc = 0"
  proof (rule ccontr)
    assume "rc \<noteq> 0"
    with rest have "stop_relaying (m1\<lparr>status := USBM_SETUP_ABORT\<rparr>) = Inr m'" by simp
    then have "status m' = USBM_IDLE" by (rule stop_relaying_from_abort) simp
    with relaying show False by simp
  qed
  with rest have "launch_ep0 env m1 = Inr m'" by simp
  from launch_ep0_relaying [OF this i1 relaying] s1 show ?thesis
    using same_binding_trans by (auto simp: setting_up_def ep0_kept_def)
qed

lemma relay_setup_relaying:
  assumes run: "relay_setup env d ep0 s = Some (Inr m')" and s: "in_setup s"
      and relaying: "status m' = USBM_RELAYING"
  shows "same_binding (Some (new_RelayWriter ep0 Device_proxy True Control_queues))
           (out_writers m' 0) \<and>
         injectorThreads m' =
           injectorThreads s @ map Injector_listen [0..<unat (injectorCount s)]"
proof -
  define m1 where "m1 = s\<lparr>out_readers := (out_readers s)
                   (0 \<mapsto> new_RelayReader ep0 Host_proxy Control_queues),
                 out_writers := (out_writers s)
                   (0 \<mapsto> new_RelayWriter ep0 Device_proxy True Control_queues)\<rparr>"
  have f1: "in_setup m1" "injectorThreads m1 = injectorThreads s"
    "injectorCount m1 = injectorCount s"
    "out_writers m1 0 = Some (new_RelayWriter ep0 Device_proxy True Control_queues)"
    using s by (simp_all add: m1_def in_setup_def)
  from run [unfolded relay_setup_def, folded m1_def] have run1:
    "(case walk (apply_filter_ep0 d) Filter_walk env [0..<unat (filterCount m1)] m1 of
           Inl e \<Rightarrow> Some (Inl e)
         | Inr (returned2, m2) \<Rightarrow>
             if returned2 then Some (Inr m2)
             else
               (case walk (apply_injector_ep0 d) Injector_walk env
                       [0..<unat (injectorCount m2)] m2 of
                  Inl e \<Rightarrow> Some (Inl e)
                | Inr (returned3, m3) \<Rightarrow>
                    if returned3 then Some (Inr m3)
                    else
                      (case walk start_injector_thread Injector_thread env
                              [0..<unat (injectorCount m3)] m3 of
                         Inl e \<Rightarrow> Some (Inl e)
                       | Inr (returned4, m4) \<Rightarrow>
                           if returned4 then Some (Inr m4) else host_setup env m4))) =
      Some (Inr m')"
    by (simp add: Let_def)
  then obtain r2 m2 where
    w2: "walk (apply_filter_ep0 d) Filter_walk env [0..<unat (filterCount m1)] m1 = Inr (r2, m2)"
    by (cases "walk (apply_filter_ep0 d) Filter_walk env [0..<unat (filterCount m1)] m1") auto
  from walk_result [OF w2 f1(1)] setting_up_apply_filter_ep0
  have c2: "if r2 then status m2 = USBM_IDLE else setting_up m1 m2" by blast
  have n2: "\<not> r2"
  proof
    assume r2
    with run1 w2 c2 relaying show False by simp
  qed
  with c2 have s2: "setting_up m1 m2" by simp
  then have i2: "in_setup m2" using f1(1) by (rule setting_up_in_setup)
  from run1 w2 n2 obtain r3 m3 where
    w3: "walk (apply_injector_ep0 d) Injector_walk env [0..<unat (injectorCount m2)] m2 =
         Inr (r3, m3)"
    by (cases "walk (apply_injector_ep0 d) Injector_walk env [0..<unat (injectorCount m2)] m2")
       auto
  have "setting_up t t'" if "apply_injector_ep0 d i t = Inr t'" for i t t'
    using apply_injector_ep0_unchanged [OF that] by simp
  with walk_result [OF w3 i2]
  have c3: "if r3 then status m3 = USBM_IDLE else setting_up m2 m3" by blast
  have n3: "\<not> r3"
  proof
    assume r3
    with run1 w2 n2 w3 c3 relaying show False by simp
  qed
  with c3 have s3: "setting_up m2 m3" by simp
  then have i3: "in_setup m3" using i2 by (rule setting_up_in_setup)
  from run1 w2 n2 w3 n3 obtain r4 m4 where
    w4: "walk start_injector_thread Injector_thread env [0..<unat (injectorCount m3)] m3 =
         Inr (r4, m4)"
    by (cases "walk start_injector_thread Injector_thread env [0..<unat (injectorCount m3)] m3")
       auto
  note c4 = thread_walk_result [OF w4 i3]
  have n4: "\<not> r4"
  proof
    assume r4
    with run1 w2 n2 w3 n3 w4 c4 relaying show False by simp
  qed
  with c4 have k4: "ep0_kept m3 m4"
    and t4: "injectorThreads m4 = injectorThreads m3 @ map Injector_listen [0..<unat (injectorCount m3)]"
    by simp_all
  from k4 i3 have i4: "in_setup m4" by (rule ep0_kept_in_setup)
  from run1 w2 n2 w3 n3 w4 n4 have "host_setup env m4 = Some (Inr m')" by simp
  note h = host_setup_relaying [OF this i4 relaying]
  have s13: "setting_up m1 m3" using s2 s3 by (rule setting_up_trans)
  then have "same_binding (out_writers m1 0) (out_writers m3 0)"
    and cnt: "injectorCount m3 = injectorCount m1"
    and thr: "injectorThreads m3 = injectorThreads m1"
    by (simp_all add: setting_up_def ep0_kept_def)
  moreover from k4 have "same_binding (out_writers m3 0) (out_writers m4 0)"
    by (simp add: ep0_kept_def)
  ultimately have "same_binding (out_writers m1 0) (out_writers m' 0)"
    using h same_binding_trans by blast
  with f1 h t4 cnt thr show ?thesis by simp
qed

lemma control_setup_relaying:
  assumes run: "control_setup env s = Some (Inr m')" and s: "in_setup s"
      and relaying: "status m' = USBM_RELAYING"
  shows "same_binding
           (Some (new_RelayWriter
              \<lparr>ep_interface = None, ep_descriptor = ep0_descriptor (connected_device env)\<rparr>
              Device_proxy True Control_queues))
           (out_writers m' 0) \<and>
         injectorThreads m' =
           injectorThreads s @ map Injector_listen [0..<unat (injectorCount s)]"
proof -
  define d where "d = connected_device env"
  define ep0 where "ep0 = \<lparr>ep_interface = None, ep_descriptor = ep0_descriptor d\<rparr>"
  define m1 where "m1 = emit Device_print (s\<lparr>device := Some d\<rparr>)"
  have s1: "setting_up s m1" by (simp add: m1_def setting_up_def ep0_kept_def emit_def)
  from run obtain cfg where cfg: "get_active_configuration d = Some cfg"
    by (cases "get_active_configuration d") (simp_all add: control_setup_def Let_def d_def)
  from run cfg obtain m2 where 2: "claim_interfaces cfg m1 = Inr m2"
    by (cases "claim_interfaces cfg m1")
       (simp_all add: control_setup_def Let_def d_def [symmetric] m1_def [symmetric])
  define m3 where "m3 = observe env After_claim m2"
  define m4 where "m4 = observe env After_ep0 (m3\<lparr>out_endpoints := (out_endpoints m3)(0 \<mapsto> ep0)\<rparr>)"
  from run cfg 2 have run3:
    "(if status m3 \<noteq> USBM_SETUP then Some (stop_relaying m3)
      else if status m4 \<noteq> USBM_SETUP then Some (stop_relaying m4)
           else relay_setup env d ep0 m4) = Some (Inr m')"
    by (simp add: control_setup_def Let_def d_def [symmetric] m1_def [symmetric]
          m3_def [symmetric] ep0_def [symmetric] m4_def [symmetric] cong: if_cong)
  have s3: "setting_up s m3"
    unfolding m3_def
    using s1 setting_up_claim_interfaces [OF 2] setting_up_observe setting_up_trans by blast
  then have i3: "in_setup m3" using s by (rule setting_up_in_setup)
  have "setting_up m3 (m3\<lparr>out_endpoints := (out_endpoints m3)(0 \<mapsto> ep0)\<rparr>)"
    by (simp add: setting_up_def ep0_kept_def)
  then have "setting_up m3 m4"
    unfolding m4_def using setting_up_observe setting_up_trans by blast
  with s3 have s4: "setting_up s m4" by (rule setting_up_trans)
  then have i4: "in_setup m4" using s by (rule setting_up_in_setup)
  have go3: "status m3 = USBM_SETUP"
  proof (rule ccontr)
    assume a: "status m3 \<noteq> USBM_SETUP"
    with run3 have "stop_relaying m3 = Inr m'" by simp
    then have "status m' = USBM_IDLE" using i3 a by (rule stop_relaying_in_setup)
    with relaying show False by simp
  qed
  have go4: "status m4 = USBM_SETUP"
  proof (rule ccontr)
    assume a: "status m4 \<noteq> USBM_SETUP"
    with run3 go3 have "stop_relaying m4 = Inr m'" by simp
    then have "status m' = USBM_IDLE" using i4 a by (rule stop_relaying_in_setup)
    with relaying show False by simp
  qed
  from run3 go3 go4 have "relay_setup env d ep0 m4 = Some (Inr m')" by simp
  from relay_setup_relaying [OF this i4 relaying] s4 show ?thesis
    by (simp add: setting_up_def ep0_kept_def ep0_def d_def)
qed

text \<open>
  For every Manager and every environment: when start_control_relaying ends in RELAYING,
  the EP0 writer is the one the method constructed, on the device proxy and the control
  queues, with an empty injection intake whatever the registered injectors are, and one
  listen task per registered injector has been started, in the order of the list.
\<close>

lemma ep0_writer_after_control_setup:
  assumes "start_control_relaying env m = Some (Inr m')" and "status m' = USBM_RELAYING"
  shows "(\<exists>w. out_writers m' 0 = Some w \<and> wr_injection w = [] \<and>
              wr_queue w = Control_queues \<and> wr_proxy w = Device_proxy \<and> wr_manager w) \<and>
         injectorThreads m' =
           injectorThreads m @ map Injector_listen [0..<unat (injectorCount m)]"
proof -
  from assms(1) obtain rc m1 where
    1: "connect_device env (m\<lparr>status := USBM_SETUP\<rparr>) = Some (Inr (rc, m1))"
    and rest: "(if rc \<noteq> 0
          then Some (Inr ((emit Log_unable_to_connect m1)\<lparr>status := USBM_IDLE\<rparr>))
          else control_setup env m1) = Some (Inr m')"
    by (auto simp: start_control_relaying_def split: option.splits sum.splits)
  from 1 have s1: "setting_up (m\<lparr>status := USBM_SETUP\<rparr>) m1"
    unfolding connect_device_def by (rule connect_retrying_setting_up)
  then have i1: "in_setup m1" by (rule setting_up_in_setup) (simp add: in_setup_def)
  have "rc = 0"
  proof (rule ccontr)
    assume "rc \<noteq> 0"
    with rest have "status m' = USBM_IDLE" by auto
    with assms(2) show False by simp
  qed
  with rest have "control_setup env m1 = Some (Inr m')" by simp
  from control_setup_relaying [OF this i1 assms(2)] s1 show ?thesis
    by (cases "out_writers m' 0")
       (simp_all add: same_binding_def new_RelayWriter_def setting_up_def ep0_kept_def)
qed

subsection \<open>The queue slots across the teardown\<close>

lemma kept_for_each:
  assumes "for_each body xs m = Inr m'"
      and "\<And>x s s'. x \<in> set xs \<Longrightarrow> body x s = Inr s' \<Longrightarrow> kept s s'"
  shows "kept m m'"
  using assms(1)
proof (rule for_each_invariant)
  show "kept m m" by simp
next
  fix x s s'
  assume "x \<in> set xs" "kept m s" "body x s = Inr s'"
  then show "kept m s'" using assms(2) kept_trans by blast
qed

lemma kept_proxy_call: "proxy_call p c s = Inr s' \<Longrightarrow> kept s s'"
  by (auto simp: proxy_call_def split: if_splits)

lemma kept_signal_injector: "signal_injector i s = Inr s' \<Longrightarrow> kept s s'"
  unfolding signal_injector_def by (auto elim!: and_thenE split: option.splits)

lemma kept_signal_thread: "signal_thread j r t s = Inr s' \<Longrightarrow> kept s s'"
  by (auto simp: signal_thread_def split: if_splits option.splits)

lemma kept_signal_relayers:
  assumes "signal_relayers i s = Inr s'"
  shows "kept s s'"
proof -
  from assms [unfolded signal_relayers_def] obtain s1 s2 s3 where
    a: "signal_thread (in_readerThreads s i) (in_readers s i) (In_reader i) s = Inr s1"
      "signal_thread (in_writerThreads s1 i) (in_writers s1 i) (In_writer i) s1 = Inr s2"
      "signal_thread (out_readerThreads s2 i) (out_readers s2 i) (Out_reader i) s2 = Inr s3"
      "signal_thread (out_writerThreads s3 i) (out_writers s3 i) (Out_writer i) s3 = Inr s'"
    by (elim and_thenE)
  show ?thesis
    by (rule kept_trans [OF kept_signal_thread [OF a(1)]],
        rule kept_trans [OF kept_signal_thread [OF a(2)]],
        rule kept_trans [OF kept_signal_thread [OF a(3)]],
        rule kept_signal_thread [OF a(4)])
qed

lemma kept_release_interfaces:
  assumes "release_interfaces s = Inr s'"
  shows "kept s s'"
proof (cases "device s")
  case None
  with assms show ?thesis by (simp add: release_interfaces_def)
next
  case (Some d)
  with assms obtain cfg where
    "for_each (\<lambda>ifc_idx. proxy_call Device_proxy (Release_interface ifc_idx))
       [0..<bNumInterfaces cfg] s = Inr s'"
    by (cases "get_active_configuration d") (simp_all add: release_interfaces_def)
  then show ?thesis by (rule kept_for_each) (rule kept_proxy_call)
qed

lemma stop_relaying_keeps_queues:
  assumes "stop_relaying m = Inr m'"
  shows "in_queues m' = in_queues m \<and> out_queues m' = out_queues m \<and>
         queues_allocated m' = queues_allocated m"
proof (cases "status m = USBM_RELAYING \<or> status m = USBM_SETUP_ABORT")
  case False
  with assms show ?thesis by (auto simp: stop_relaying_def split: if_splits)
next
  case True
  define m0 where "m0 = m\<lparr>status := USBM_STOPPING\<rparr>"
  from True assms have
    "and_then (for_each signal_injector [0..<unat (injectorCount m)] m0) (\<lambda>m1.
        and_then (for_each signal_relayers [0..<16] m1) (\<lambda>m2.
        and_then (release_interfaces
                    (delete_ep0 (fold release_slot [0..<16] (join_injectors m2)))) (\<lambda>m3.
        and_then (proxy_call Host_proxy Disconnect m3) (\<lambda>m4.
        and_then (proxy_call Device_proxy Disconnect m4) (\<lambda>m5.
        Inr (m5\<lparr>device := None, status := USBM_IDLE\<rparr>)))))) = Inr m'"
    unfolding stop_relaying_def m0_def by auto
  then obtain m1 m2 m3 m4 m5 where
    1: "for_each signal_injector [0..<unat (injectorCount m)] m0 = Inr m1"
    and 2: "for_each signal_relayers [0..<16] m1 = Inr m2"
    and 3: "release_interfaces (delete_ep0 (fold release_slot [0..<16] (join_injectors m2))) =
            Inr m3"
    and 4: "proxy_call Host_proxy Disconnect m3 = Inr m4"
    and 5: "proxy_call Device_proxy Disconnect m4 = Inr m5"
    and 6: "m' = m5\<lparr>device := None, status := USBM_IDLE\<rparr>"
    by (elim and_thenE) auto
  from 1 have k1: "kept m0 m1" by (rule kept_for_each) (rule kept_signal_injector)
  from 2 have k2: "kept m1 m2" by (rule kept_for_each) (rule kept_signal_relayers)
  have "kept m0 m5"
    by (rule kept_trans [OF k1], rule kept_trans [OF k2],
        rule kept_trans [OF kept_join_injectors],
        rule kept_trans [OF kept_fold [of release_slot, OF kept_release_slot]],
        rule kept_trans [OF kept_delete_ep0],
        rule kept_trans [OF kept_release_interfaces [OF 3]],
        rule kept_trans [OF kept_proxy_call [OF 4]],
        rule kept_proxy_call [OF 5])
  with 6 show ?thesis by (simp add: kept_def m0_def)
qed

subsection \<open>The registry invariant\<close>

text \<open>
  The invariant under which the lookups are stated holds for a new Manager and is kept by
  every addition below 255 elements, which stores the new element behind the old ones.
\<close>

lemma registry_ok_new:
  "registry_ok (filters Manager_new) (filterCount Manager_new)"
  "registry_ok (injectors Manager_new) (injectorCount Manager_new)"
  by (simp_all add: registry_ok_def Manager_new_def)

lemma unat_succ_u8: "n < 255 \<Longrightarrow> unat (n + 1) = Suc (unat n)" for n :: "8 word"
  by (simp add: unat_word_ariths word_less_nat_alt)

lemma registry_first:
  "block_write (realloc None (Suc 0)) 0 v = Inr (Some [Stored v])"
  by (simp add: realloc_def block_write_def)

lemma registry_append:
  assumes ok: "registry_ok (Some xs) n" and room: "n < 255"
  shows "block_write (realloc (Some xs) (unat (n + 1))) (int (unat (n + 1)) - 1) v =
           Inr (Some (xs @ [Stored v]))"
proof -
  from ok have len: "length xs = unat n" by (simp add: registry_ok_def)
  note suc = unat_succ_u8 [OF room]
  show ?thesis using suc by (simp add: realloc_def block_write_def len [symmetric])
qed

lemma registry_ok_append:
  assumes ok: "registry_ok b n" and room: "n < 255"
  shows "registry_ok (Some ((case b of None \<Rightarrow> [] | Some xs \<Rightarrow> xs) @ [Stored v])) (n + 1) \<and>
         element_at (Some ((case b of None \<Rightarrow> [] | Some xs \<Rightarrow> xs) @ [Stored v])) (n + 1) n = v \<and>
         (\<forall>i<n. element_at (Some ((case b of None \<Rightarrow> [] | Some xs \<Rightarrow> xs) @ [Stored v])) (n + 1) i =
            element_at b n i)"
proof -
  note suc = unat_succ_u8 [OF room]
  have lt: "n < n + 1" using room by (simp add: word_less_nat_alt suc)
  show ?thesis
  proof (cases b)
    case None
    with ok have "n = 0" by (simp add: registry_ok_def)
    with None show ?thesis by (simp add: registry_ok_def element_at_def)
  next
    case (Some xs)
    with ok have len: "length xs = unat n" and init: "list_all (\<lambda>c. c \<noteq> Indeterminate) xs"
      by (simp_all add: registry_ok_def)
    have nz: "0 < n + 1" using lt by (simp add: word_less_nat_alt)
    show ?thesis
      using Some len init suc lt nz
      by (auto simp: registry_ok_def element_at_def nth_append word_less_nat_alt
            word_le_nat_alt)
  qed
qed

lemma add_filter_registry_ok:
  assumes "registry_ok (filters m) (filterCount m)" and "filterCount m < 255"
  shows "\<exists>m'. add_filter f m = Inr m' \<and> filterCount m' = filterCount m + 1 \<and>
           registry_ok (filters m') (filterCount m') \<and>
           element_at (filters m') (filterCount m') (filterCount m) = f \<and>
           (\<forall>i<filterCount m. element_at (filters m') (filterCount m') i =
              element_at (filters m) (filterCount m) i)"
proof (cases "filters m")
  case None
  with assms(1) have z: "filterCount m = 0" by (simp add: registry_ok_def)
  from registry_ok_append [OF assms, of f] None z show ?thesis
    by (simp add: add_filter_def Let_def emit_def registry_first and_then_Inr)
next
  case (Some xs)
  from registry_ok_append [OF assms, of f] registry_append [OF assms(1) [unfolded Some] assms(2), of f]
    Some
  show ?thesis
    by (simp add: add_filter_def Let_def emit_def and_then_Inr)
qed

lemma add_injector_registry_ok:
  assumes "registry_ok (injectors m) (injectorCount m)" and "injectorCount m < 255"
  shows "\<exists>m'. add_injector i m = Inr m' \<and> injectorCount m' = injectorCount m + 1 \<and>
           registry_ok (injectors m') (injectorCount m') \<and>
           element_at (injectors m') (injectorCount m') (injectorCount m) = i \<and>
           (\<forall>k<injectorCount m. element_at (injectors m') (injectorCount m') k =
              element_at (injectors m) (injectorCount m) k)"
proof (cases "injectors m")
  case None
  with assms(1) have z: "injectorCount m = 0" by (simp add: registry_ok_def)
  from registry_ok_append [OF assms, of i] None z show ?thesis
    by (simp add: add_injector_def Let_def emit_def registry_first and_then_Inr)
next
  case (Some xs)
  from registry_ok_append [OF assms, of i] registry_append [OF assms(1) [unfolded Some] assms(2), of i]
    Some
  show ?thesis
    by (simp add: add_injector_def Let_def emit_def and_then_Inr)
qed

section \<open>The teardown in full\<close>


lemma injector_signalled_trace [simp]:
  "injector_signalled (s\<lparr>trace := t\<rparr>) = injector_signalled s"
  by (rule ext) (simp add: injector_signalled_def)



lemma signalled_trace [simp]: "signalled (s\<lparr>trace := t\<rparr>) = signalled s"
  by (rule ext) (simp add: signalled_def)



















lemma torn_down_status [simp]: "torn_down (m\<lparr>status := x\<rparr>) m' = torn_down m m'"
  by (simp add: torn_down_def teardown_record_def injector_signalled_def [abs_def]
        signalled_def [abs_def] joined_def [abs_def] released_def del: upt_rec_numeral)




end
